theory Spec2Isabelle
  imports Main "HOL-Library.Signed_Division" "HOL-Library.Monad_Syntax"
begin

section \<open>Exceptions\<close>

text \<open>
  The three standard exception classes the sources throw, each with its message.
  Every member function of \<open>FordFulkerson\<close> is one \<open>try\<close> block whose handler
  \<open>catch (const std::exception &e)\<close> throws
  \<open>std::runtime_error(prefix + e.what())\<close>; \<open>catch_rethrow\<close> is that handler.
  A call returns the pair of its outcome (\<open>Inl\<close> the exception that leaves the function)
  and the object's state at that moment.
\<close>

datatype exn = invalid_argument string | out_of_range string | runtime_error string

fun what :: "exn \<Rightarrow> string" where
  "what (invalid_argument m) = m"
| "what (out_of_range m) = m"
| "what (runtime_error m) = m"

definition catch_rethrow :: "string \<Rightarrow> (exn + 'a) \<times> 's \<Rightarrow> (exn + 'a) \<times> 's" where
  "catch_rethrow prefix r =
     (case r of
        (Inl e, s) \<Rightarrow> (Inl (runtime_error (prefix @ what e)), s)
      | (Inr x, s) \<Rightarrow> (Inr x, s))"

section \<open>Graph.cpp\<close>

text \<open>
  C++ \<open>int\<close> is modelled by \<open>int\<close> within \<open>[INT_MIN, INT_MAX]\<close>, \<open>std::vector\<close> by
  \<open>list\<close>.  The entries of the capacity matrix are what the caller puts there with
  \<open>createEdge\<close>, any \<open>int\<close>, and \<open>updateResidualGraph\<close> computes on them with \<open>+= 1\<close> and
  \<open>-= 1\<close>.  Signed overflow is undefined behaviour in C++; the compiled code wraps around
  in two's complement, and \<open>wrap_int\<close> writes that out.  The other integers the code
  computes (depths, queue positions, the counter of matches) count nodes or pairs of nodes.  \<open>operator[]\<close> is
  unchecked in C++: an index outside the vector is undefined behaviour there and an
  unspecified value of \<open>!\<close> here, so every statement about an access carries the range of
  its index.
\<close>

definition INT_MAX :: int where
  "INT_MAX = 2147483647"

definition INT_MIN :: int where
  "INT_MIN = - 2147483648"

definition wrap_int :: "int \<Rightarrow> int" where
  "wrap_int k = (k + 2147483648) mod 4294967296 - 2147483648"

record Graph =
  nodes :: int
  totalNodes :: int
  adjacencyMatrix :: "int list list"

definition initializeAdjacencyMatrix :: "int \<Rightarrow> int list list" where
  "initializeAdjacencyMatrix n = replicate (nat n) (replicate (nat n) 0)"

definition Graph_new :: "int \<Rightarrow> Graph" where
  "Graph_new n =
     \<lparr>nodes = n, totalNodes = n + 2, adjacencyMatrix = initializeAdjacencyMatrix (n + 2)\<rparr>"

definition createEdge :: "Graph \<Rightarrow> int \<Rightarrow> int \<Rightarrow> int \<Rightarrow> Graph" where
  "createEdge g node1 node2 maxFlow =
     g\<lparr>adjacencyMatrix :=
         (adjacencyMatrix g)[nat node1 := (adjacencyMatrix g ! nat node1)[nat node2 := maxFlow]]\<rparr>"

definition createSourceNode :: "Graph \<Rightarrow> int \<Rightarrow> Graph" where
  "createSourceNode g source = foldl (\<lambda>g i. createEdge g source i 1) g [1..nodes g sdiv 2]"

definition createSinkNode :: "Graph \<Rightarrow> int \<Rightarrow> Graph" where
  "createSinkNode g sink =
     foldl (\<lambda>g i. createEdge g i sink 1) g [nodes g sdiv 2 + 1..nodes g]"

definition connectSourceAndSinkNodes :: "Graph \<Rightarrow> int \<Rightarrow> int \<Rightarrow> Graph" where
  "connectSourceAndSinkNodes g source sink = createSinkNode (createSourceNode g source) sink"

definition getNodes :: "Graph \<Rightarrow> int" where
  "getNodes g = totalNodes g"

definition getAdjacencyMatrix :: "Graph \<Rightarrow> int list list" where
  "getAdjacencyMatrix g = adjacencyMatrix g"

definition findAdjacentNodes :: "Graph \<Rightarrow> int \<Rightarrow> int list" where
  "findAdjacentNodes g node =
     filter (\<lambda>i. adjacencyMatrix g ! nat node ! nat i > 0) [0..totalNodes g - 1]"

text \<open>
  \<open>printResults\<close> writes one line per pair and then the number of matches.  The model
  returns what is written: the pairs \<open>(i, n)\<close> in the order of the two loops, the line of
  each pair, and the counter \<open>matches\<close>.
\<close>

definition printResults_inner ::
  "Graph \<Rightarrow> int \<Rightarrow> (int \<times> int) list \<times> int \<Rightarrow> (int \<times> int) list \<times> int" where
  "printResults_inner g i acc =
     foldl (\<lambda>(out, matches) n.
              if adjacencyMatrix g ! nat n ! nat i = 1
              then (out @ [(i, n)], matches + 1)
              else (out, matches))
           acc [nodes g sdiv 2 + 1..nodes g]"

definition printResults_pairs :: "Graph \<Rightarrow> (int \<times> int) list \<times> int" where
  "printResults_pairs g = foldl (\<lambda>acc i. printResults_inner g i acc) ([], 0) [1..nodes g sdiv 2]"

definition printResults :: "Graph \<Rightarrow> string list \<Rightarrow> string list \<times> int" where
  "printResults g inputAdjacencyMatrix =
     (case printResults_pairs g of
        (out, matches) \<Rightarrow>
          (map (\<lambda>(i, n). inputAdjacencyMatrix ! nat i @ '' / '' @ inputAdjacencyMatrix ! nat n) out,
           matches))"

section \<open>FordFulkerson.cpp\<close>

text \<open>
  The engine holds a reference to the graph it was built on; the model keeps the graph
  inside the engine's state, and the caller reads it back from there.
\<close>

record FordFulkerson =
  depth :: "int list"
  maxFlow :: "int list list"
  graph :: Graph

definition FordFulkerson_new :: "Graph \<Rightarrow> FordFulkerson" where
  "FordFulkerson_new g =
     \<lparr>depth = replicate (nat (getNodes g)) 0,
      maxFlow = replicate (nat (getNodes g)) (replicate (nat (getNodes g)) 0),
      graph = g\<rparr>"

subsection \<open>updateResidualGraph\<close>

definition updateResidualGraph_try :: "FordFulkerson \<Rightarrow> int \<Rightarrow> int \<Rightarrow> (exn + unit) \<times> FordFulkerson" where
  "updateResidualGraph_try ff src dst =
     (if src < 0 \<or> src \<ge> getNodes (graph ff) \<or> dst < 0 \<or> dst \<ge> getNodes (graph ff)
      then (Inl (out_of_range ''Source or destination node is out of valid range.''), ff)
      else
        let m = adjacencyMatrix (graph ff);
            m1 = m[nat dst := (m ! nat dst)[nat src := wrap_int (m ! nat dst ! nat src + 1)]];
            m2 = m1[nat src := (m1 ! nat src)[nat dst := wrap_int (m1 ! nat src ! nat dst - 1)]]
        in (Inr (), ff\<lparr>graph := (graph ff)\<lparr>adjacencyMatrix := m2\<rparr>\<rparr>))"

definition updateResidualGraph :: "FordFulkerson \<Rightarrow> int \<Rightarrow> int \<Rightarrow> (exn + unit) \<times> FordFulkerson" where
  "updateResidualGraph ff src dst =
     catch_rethrow ''Error in updateResidualGraph: '' (updateResidualGraph_try ff src dst)"

subsection \<open>clearMaxFlowAtNode\<close>

text \<open>Nothing in the \<open>try\<close> block of this function throws, so its handler is never entered.\<close>

definition clearMaxFlowAtNode :: "FordFulkerson \<Rightarrow> int \<Rightarrow> FordFulkerson" where
  "clearMaxFlowAtNode ff node =
     ff\<lparr>maxFlow :=
          foldl (\<lambda>mf i. mf[nat i := (mf ! nat i)[nat node := 0]]) (maxFlow ff)
                [0..getNodes (graph ff) - 1]\<rparr>"

subsection \<open>levelGraph\<close>

text \<open>
  The \<open>for\<close> loop over the neighbours of \<open>currentNode\<close>, with its \<open>return true\<close>: the
  first component of the result says whether the function returned from inside the loop.
  \<open>front\<close> and \<open>back\<close> only count upwards from 0 and are natural numbers here.
\<close>

fun levelGraph_visit ::
  "Graph \<Rightarrow> int \<Rightarrow> int \<Rightarrow> int list \<Rightarrow> int list \<Rightarrow> int list \<Rightarrow> nat
     \<Rightarrow> bool \<times> int list \<times> int list \<times> nat" where
  "levelGraph_visit g sink currentNode [] dep bfsQueue back = (False, dep, bfsQueue, back)"
| "levelGraph_visit g sink currentNode (adjacent # rest) dep bfsQueue back =
     (if dep ! nat adjacent = -1 \<and>
         getAdjacencyMatrix g ! nat currentNode ! nat adjacent > 0
      then
        let dep' = dep[nat adjacent := dep ! nat currentNode + 1] in
        if adjacent = sink then (True, dep', bfsQueue, back)
        else levelGraph_visit g sink currentNode rest dep' (bfsQueue[back := adjacent]) (back + 1)
      else levelGraph_visit g sink currentNode rest dep bfsQueue back)"

text \<open>
  The \<open>while (front < back)\<close> loop.  The result also carries the queue and its two
  indices as they are when the function returns.
\<close>

partial_function (option) levelGraph_loop ::
  "Graph \<Rightarrow> int \<Rightarrow> int list \<Rightarrow> int list \<Rightarrow> nat \<Rightarrow> nat
     \<Rightarrow> (bool \<times> int list \<times> int list \<times> nat \<times> nat) option" where
  "levelGraph_loop g sink dep bfsQueue front back =
     (if front < back then
        let currentNode = bfsQueue ! front;
            r = levelGraph_visit g sink currentNode (findAdjacentNodes g currentNode)
                  dep bfsQueue back
        in if fst r then Some (True, fst (snd r), fst (snd (snd r)), front + 1, snd (snd (snd r)))
           else levelGraph_loop g sink (fst (snd r)) (fst (snd (snd r))) (front + 1)
                  (snd (snd (snd r)))
      else Some (False, dep, bfsQueue, front, back))"

declare levelGraph_loop.simps [code]

definition levelGraph_run ::
  "Graph \<Rightarrow> int \<Rightarrow> int \<Rightarrow> (bool \<times> int list \<times> int list \<times> nat \<times> nat) option" where
  "levelGraph_run g source sink =
     (let totalNodes = getNodes g;
          bfsQueue = replicate (nat totalNodes) 0;
          dep = (replicate (nat totalNodes) (-1))[nat source := 0]
      in levelGraph_loop g sink dep (bfsQueue[0 := source]) 0 1)"

definition levelGraph :: "FordFulkerson \<Rightarrow> int \<Rightarrow> int \<Rightarrow> (bool \<times> FordFulkerson) option" where
  "levelGraph ff source sink =
     map_option (\<lambda>r. (fst r, ff\<lparr>depth := fst (snd r)\<rparr>)) (levelGraph_run (graph ff) source sink)"

subsection \<open>findNextNodeInPath and findAugmentingPath\<close>

text \<open>
  The reference parameters \<open>node\<close>, \<open>path\<close> and \<open>backtracking\<close> are returned with the
  result.  The \<open>for\<close> loop with its \<open>break\<close> is \<open>find\<close>: the first neighbour, in the
  order of \<open>findAdjacentNodes\<close>, that is one level deeper and has snapshot capacity.
\<close>

definition findNextNodeInPath ::
  "FordFulkerson \<Rightarrow> int \<Rightarrow> int list \<Rightarrow> bool \<Rightarrow> int
     \<Rightarrow> bool \<times> int \<times> int list \<times> bool \<times> FordFulkerson" where
  "findNextNodeInPath ff node path backtracking source =
     (let path1 = (if backtracking then path else path @ [node]) in
      case find (\<lambda>neighbor. depth ff ! nat node + 1 = depth ff ! nat neighbor \<and>
                             maxFlow ff ! nat node ! nat neighbor > 0)
                (findAdjacentNodes (graph ff) node) of
        Some neighbor \<Rightarrow> (True, neighbor, path1, False, ff)
      | None \<Rightarrow>
          if node = source then (False, node, path1, False, ff)
          else
            let ff' = clearMaxFlowAtNode ff node;
                path2 = butlast path1
            in (True, (if path2 \<noteq> [] then last path2 else node), path2, True, ff'))"

partial_function (option) findAugmentingPath_loop ::
  "FordFulkerson \<Rightarrow> int \<Rightarrow> int list \<Rightarrow> bool \<Rightarrow> int \<Rightarrow> int
     \<Rightarrow> (bool \<times> int list \<times> FordFulkerson) option" where
  "findAugmentingPath_loop ff currentNode path backtracking source sink =
     (if currentNode \<noteq> sink then
        case findNextNodeInPath ff currentNode path backtracking source of
          (ok, currentNode', path', backtracking', ff') \<Rightarrow>
            if \<not> ok then Some (False, path', ff')
            else if currentNode' = sink then Some (True, path' @ [sink], ff')
            else findAugmentingPath_loop ff' currentNode' path' backtracking' source sink
      else Some (False, path, ff))"

declare findAugmentingPath_loop.simps [code]

definition findAugmentingPath ::
  "FordFulkerson \<Rightarrow> int list \<Rightarrow> int \<Rightarrow> int \<Rightarrow> (bool \<times> int list \<times> FordFulkerson) option" where
  "findAugmentingPath ff path source sink = findAugmentingPath_loop ff source path False source sink"

subsection \<open>augmentFlowAlongPath\<close>

text \<open>
  The two \<open>for\<close> loops over the consecutive pairs of \<open>path\<close>.  Both run from 0 to
  \<open>path.size() - 1\<close>, which is only meaningful for a non-empty path; a path that
  \<open>findAugmentingPath\<close> reports has at least two nodes.
\<close>

fun pathFlow_loop :: "int list list \<Rightarrow> int list \<Rightarrow> int \<Rightarrow> int" where
  "pathFlow_loop mf (u # v # rest) pathFlow =
     pathFlow_loop mf (v # rest) (min pathFlow (mf ! nat u ! nat v))"
| "pathFlow_loop mf _ pathFlow = pathFlow"

fun update_loop :: "FordFulkerson \<Rightarrow> int list \<Rightarrow> (exn + unit) \<times> FordFulkerson" where
  "update_loop ff (u # v # rest) =
     (case updateResidualGraph ff u v of
        (Inl e, ff') \<Rightarrow> (Inl e, ff')
      | (Inr _, ff') \<Rightarrow> update_loop ff' (v # rest))"
| "update_loop ff _ = (Inr (), ff)"

text \<open>
  The \<open>while\<close> loop of \<open>augmentFlowAlongPath\<close>.  \<open>pushed\<close> is not a variable of the
  source: it counts the iterations of the loop body, that is the paths committed, and
  nothing reads it.
\<close>

partial_function (option) augmentFlowAlongPath_try ::
  "FordFulkerson \<Rightarrow> int list \<Rightarrow> int \<Rightarrow> int \<Rightarrow> nat \<Rightarrow> ((exn + nat) \<times> FordFulkerson) option" where
  "augmentFlowAlongPath_try ff path source sink pushed =
     do {
       r \<leftarrow> findAugmentingPath ff path source sink;
       case r of
         (found, path1, ff1) \<Rightarrow>
           if found then
             let pathFlow = pathFlow_loop (maxFlow ff1) path1 INT_MAX in
             case update_loop ff1 path1 of
               (Inl e, ff2) \<Rightarrow> Some (Inl e, ff2)
             | (Inr _, ff2) \<Rightarrow> augmentFlowAlongPath_try ff2 [] source sink (pushed + 1)
           else Some (Inr pushed, ff1)
     }"

declare augmentFlowAlongPath_try.simps [code]

definition augmentFlowAlongPath ::
  "FordFulkerson \<Rightarrow> int list \<Rightarrow> int \<Rightarrow> int \<Rightarrow> ((exn + nat) \<times> FordFulkerson) option" where
  "augmentFlowAlongPath ff path source sink =
     map_option (catch_rethrow ''Error in augmentFlowAlongPath: '')
       (augmentFlowAlongPath_try ff path source sink 0)"

subsection \<open>calculateMaxFlow\<close>

text \<open>
  The \<open>while (levelGraph(source, sink))\<close> loop.  \<open>phases\<close> is not a variable of the
  source: it lists, for each iteration of the loop body, the number of paths that
  iteration committed.
\<close>

partial_function (option) calculateMaxFlow_loop ::
  "FordFulkerson \<Rightarrow> int \<Rightarrow> int \<Rightarrow> nat list \<Rightarrow> ((exn + nat list) \<times> FordFulkerson) option" where
  "calculateMaxFlow_loop ff source sink phases =
     do {
       l \<leftarrow> levelGraph ff source sink;
       if fst l then
         do {
           a \<leftarrow> augmentFlowAlongPath
                  ((snd l)\<lparr>maxFlow := getAdjacencyMatrix (graph (snd l))\<rparr>) [] source sink;
           case a of
             (Inl e, ff') \<Rightarrow> Some (Inl e, ff')
           | (Inr pushed, ff') \<Rightarrow> calculateMaxFlow_loop ff' source sink (phases @ [pushed])
         }
       else Some (Inr phases, snd l)
     }"

declare calculateMaxFlow_loop.simps [code]

definition calculateMaxFlow_try ::
  "FordFulkerson \<Rightarrow> int \<Rightarrow> int \<Rightarrow> ((exn + nat list) \<times> FordFulkerson) option" where
  "calculateMaxFlow_try ff source sink =
     (if source < 0 \<or> source \<ge> getNodes (graph ff) \<or> sink < 0 \<or> sink \<ge> getNodes (graph ff)
      then Some (Inl (invalid_argument ''Source or sink is out of valid range.''), ff)
      else calculateMaxFlow_loop ff source sink [])"

definition calculateMaxFlow ::
  "FordFulkerson \<Rightarrow> int \<Rightarrow> int \<Rightarrow> ((exn + nat list) \<times> FordFulkerson) option" where
  "calculateMaxFlow ff source sink =
     map_option (catch_rethrow ''Error in calculateMaxFlow: '') (calculateMaxFlow_try ff source sink)"

section \<open>Well-formed graphs\<close>

text \<open>
  \<open>capacity g u v\<close> reads \<open>adjacencyMatrix[u][v]\<close>.  The constructor of \<open>Graph\<close> makes
  the matrix square, of side \<open>totalNodes = nodes + 2\<close>, and no member function resizes it;
  its entries are C++ \<open>int\<close>s, so each lies in \<open>[INT_MIN, INT_MAX]\<close>.  \<open>wf_Graph\<close> is that
  class invariant.  \<open>in_range g v\<close> is the range \<open>[0, totalNodes)\<close> of the node indices.
\<close>

abbreviation capacity :: "Graph \<Rightarrow> int \<Rightarrow> int \<Rightarrow> int" where
  "capacity g u v \<equiv> adjacencyMatrix g ! nat u ! nat v"

definition square :: "int \<Rightarrow> int list list \<Rightarrow> bool" where
  "square n m \<longleftrightarrow> length m = nat n \<and> (\<forall>row \<in> set m. length row = nat n)"

definition int_matrix :: "int list list \<Rightarrow> bool" where
  "int_matrix m \<longleftrightarrow> (\<forall>row \<in> set m. \<forall>x \<in> set row. INT_MIN \<le> x \<and> x \<le> INT_MAX)"

definition wf_Graph :: "Graph \<Rightarrow> bool" where
  "wf_Graph g \<longleftrightarrow>
     0 \<le> nodes g \<and> totalNodes g = nodes g + 2 \<and> square (totalNodes g) (adjacencyMatrix g) \<and>
     int_matrix (adjacencyMatrix g)"

definition in_range :: "Graph \<Rightarrow> int \<Rightarrow> bool" where
  "in_range g v \<longleftrightarrow> 0 \<le> v \<and> v < totalNodes g"

text \<open>The pairs \<open>printResults\<close> writes, as one expression.\<close>

definition matchedPairs :: "Graph \<Rightarrow> (int \<times> int) list" where
  "matchedPairs g =
     concat (map (\<lambda>i. map (Pair i) (filter (\<lambda>n. capacity g n i = 1) [nodes g sdiv 2 + 1..nodes g]))
                 [1..nodes g sdiv 2])"

text \<open>
  The network of the specification's end-to-end example: left nodes 1 and 2, right nodes
  3 and 4, edges 1--3, 2--3 and 2--4, wired to the source 0 and the sink 5 as
  \<open>BipartiteMatcher::solve\<close> does.
\<close>

definition example_graph :: Graph where
  "example_graph =
     connectSourceAndSinkNodes
       (createEdge (createEdge (createEdge (Graph_new 4) 1 3 1) 2 3 1) 2 4 1) 0 5"

text \<open>
  A graph of two nodes, 0 and 1, built with \<open>createEdge\<close>, whose two entries are the
  extreme values of \<open>int\<close>: \<open>capacity[0][1] = INT_MIN\<close> and \<open>capacity[1][0] = INT_MAX\<close>.
\<close>

definition extreme_graph :: Graph where
  "extreme_graph = createEdge (createEdge (Graph_new 0) 0 1 INT_MIN) 1 0 INT_MAX"

definition wf_FF :: "FordFulkerson \<Rightarrow> bool" where
  "wf_FF ff \<longleftrightarrow>
     wf_Graph (graph ff) \<and> length (depth ff) = nat (totalNodes (graph ff)) \<and>
     square (totalNodes (graph ff)) (maxFlow ff)"

definition admissible :: "FordFulkerson \<Rightarrow> int \<Rightarrow> int \<Rightarrow> bool" where
  "admissible ff u v \<longleftrightarrow>
     in_range (graph ff) u \<and> in_range (graph ff) v \<and> capacity (graph ff) u v > 0 \<and>
     depth ff ! nat u + 1 = depth ff ! nat v \<and> maxFlow ff ! nat u ! nat v > 0"

definition search_chain :: "int \<Rightarrow> int list \<Rightarrow> bool \<Rightarrow> int list" where
  "search_chain node path backtracking = (if backtracking then path else path @ [node])"

definition dfs_inv :: "FordFulkerson \<Rightarrow> int \<Rightarrow> int \<Rightarrow> int list \<Rightarrow> bool \<Rightarrow> bool" where
  "dfs_inv ff source node path backtracking \<longleftrightarrow>
     wf_FF ff \<and> in_range (graph ff) source \<and>
     search_chain node path backtracking \<noteq> [] \<and>
     hd (search_chain node path backtracking) = source \<and>
     last (search_chain node path backtracking) = node \<and>
     successively (admissible ff) (search_chain node path backtracking)"

definition dead_column :: "FordFulkerson \<Rightarrow> int \<Rightarrow> bool" where
  "dead_column ff w \<longleftrightarrow> (\<forall>u. in_range (graph ff) u \<longrightarrow> maxFlow ff ! nat u ! nat w = 0)"

definition good :: "FordFulkerson \<Rightarrow> int \<Rightarrow> int \<Rightarrow> bool" where
  "good ff sink v \<longleftrightarrow>
     (\<exists>xs. xs \<noteq> [] \<and> hd xs = v \<and> last xs = sink \<and> successively (admissible ff) xs)"

definition live_cols :: "FordFulkerson \<Rightarrow> int set" where
  "live_cols ff =
     {v. in_range (graph ff) v \<and> (\<exists>u. in_range (graph ff) u \<and> maxFlow ff ! nat u ! nat v > 0)}"

definition no_admissible :: "FordFulkerson \<Rightarrow> int \<Rightarrow> bool" where
  "no_admissible ff node \<longleftrightarrow>
     find (\<lambda>neighbor. depth ff ! nat node + 1 = depth ff ! nat neighbor \<and>
                       maxFlow ff ! nat node ! nat neighbor > 0)
          (findAdjacentNodes (graph ff) node) = None"

definition dfs_post ::
  "FordFulkerson \<Rightarrow> int \<Rightarrow> int \<Rightarrow> bool \<Rightarrow> int list \<Rightarrow> FordFulkerson \<Rightarrow> bool" where
  "dfs_post ff source sink found path' ff' \<longleftrightarrow>
     graph ff' = graph ff \<and> depth ff' = depth ff \<and> wf_FF ff' \<and>
     (\<forall>u v. in_range (graph ff) u \<and> in_range (graph ff) v \<longrightarrow>
        maxFlow ff' ! nat u ! nat v = maxFlow ff ! nat u ! nat v \<or>
        maxFlow ff' ! nat u ! nat v = 0) \<and>
     (found \<longrightarrow> path' \<noteq> [] \<and> hd path' = source \<and> last path' = sink \<and>
                successively (admissible ff') path') \<and>
     (\<not> found \<longrightarrow> no_admissible ff' source) \<and>
     (\<forall>v. good ff sink v \<longrightarrow> good ff' sink v)"

fun edges_of :: "int list \<Rightarrow> (int \<times> int) list" where
  "edges_of (u # v # rest) = (u, v) # edges_of (v # rest)"
| "edges_of _ = []"

definition edge_rel :: "Graph \<Rightarrow> (int \<times> int) set" where
  "edge_rel g = {(u, v). in_range g u \<and> in_range g v \<and> capacity g u v > 0}"

definition reachable :: "Graph \<Rightarrow> int \<Rightarrow> int \<Rightarrow> bool" where
  "reachable g s t \<longleftrightarrow> (s, t) \<in> (edge_rel g)\<^sup>*"

definition tree_ok :: "Graph \<Rightarrow> int \<Rightarrow> int list \<Rightarrow> bool" where
  "tree_ok g source dep \<longleftrightarrow>
     length dep = nat (totalNodes g) \<and> in_range g source \<and> dep ! nat source = 0 \<and>
     (\<forall>v. in_range g v \<longrightarrow> dep ! nat v \<ge> -1) \<and>
     (\<forall>v. in_range g v \<and> dep ! nat v \<noteq> -1 \<and> v \<noteq> source \<longrightarrow>
          (\<exists>u. in_range g u \<and> dep ! nat u \<noteq> -1 \<and> capacity g u v > 0 \<and>
               dep ! nat v = dep ! nat u + 1))"

definition queue_ok :: "Graph \<Rightarrow> int list \<Rightarrow> int list \<Rightarrow> nat \<Rightarrow> bool" where
  "queue_ok g dep q back \<longleftrightarrow>
     length q = nat (totalNodes g) \<and> back \<le> nat (totalNodes g) \<and>
     (\<forall>k < back. in_range g (q ! k)) \<and> distinct (take back q) \<and>
     (\<forall>v. in_range g v \<longrightarrow> (dep ! nat v \<noteq> -1 \<longleftrightarrow> v \<in> set (take back q)))"

definition closed_upto :: "Graph \<Rightarrow> int list \<Rightarrow> int list \<Rightarrow> nat \<Rightarrow> bool" where
  "closed_upto g dep q front \<longleftrightarrow>
     (\<forall>k < front. \<forall>v. in_range g v \<and> capacity g (q ! k) v > 0 \<longrightarrow> dep ! nat v \<noteq> -1)"

definition visit_post ::
  "Graph \<Rightarrow> int \<Rightarrow> int \<Rightarrow> int list \<Rightarrow> int list \<Rightarrow> int list \<Rightarrow> nat
     \<Rightarrow> bool \<Rightarrow> int list \<Rightarrow> int list \<Rightarrow> nat \<Rightarrow> bool" where
  "visit_post g source sink xs dep q back found dep' q' back' \<longleftrightarrow>
     tree_ok g source dep' \<and>
     (\<forall>v. in_range g v \<and> dep ! nat v \<noteq> -1 \<longrightarrow> dep' ! nat v = dep ! nat v) \<and>
     back \<le> back' \<and> take back q' = take back q \<and>
     (found \<longrightarrow> source \<noteq> sink \<and> dep' ! nat sink \<noteq> -1 \<and>
                queue_ok g (dep'[nat sink := -1]) q' back') \<and>
     (\<not> found \<longrightarrow> queue_ok g dep' q' back' \<and> (\<forall>x \<in> set xs. dep' ! nat x \<noteq> -1) \<and>
                  (source \<noteq> sink \<longrightarrow> dep' ! nat sink = -1))"

definition loop_post ::
  "Graph \<Rightarrow> int \<Rightarrow> int \<Rightarrow> bool \<Rightarrow> int list \<Rightarrow> int list \<Rightarrow> nat \<Rightarrow> nat \<Rightarrow> bool" where
  "loop_post g source sink found dep' q' front' bk' \<longleftrightarrow>
     tree_ok g source dep' \<and> front' \<le> bk' \<and>
     (found \<longrightarrow> source \<noteq> sink \<and> dep' ! nat sink \<noteq> -1 \<and>
                queue_ok g (dep'[nat sink := -1]) q' bk') \<and>
     (\<not> found \<longrightarrow> queue_ok g dep' q' bk' \<and> closed_upto g dep' q' bk' \<and> front' = bk' \<and>
                  (source \<noteq> sink \<longrightarrow> dep' ! nat sink = -1))"

definition level_edge :: "Graph \<Rightarrow> int list \<Rightarrow> int \<Rightarrow> int \<Rightarrow> bool" where
  "level_edge g dep a b \<longleftrightarrow>
     in_range g a \<and> in_range g b \<and> capacity g a b > 0 \<and> dep ! nat a + 1 = dep ! nat b"

definition out_cap :: "Graph \<Rightarrow> int \<Rightarrow> nat" where
  "out_cap g source = sum_list (map (\<lambda>v. nat (capacity g source v)) [0..totalNodes g - 1])"

definition augment_step :: "int \<Rightarrow> int \<Rightarrow> Graph \<Rightarrow> Graph \<Rightarrow> bool" where
  "augment_step source sink g g' \<longleftrightarrow>
     (\<exists>p. p \<noteq> [] \<and> hd p = source \<and> last p = sink \<and> distinct p \<and>
          (\<forall>v \<in> set p. in_range g v) \<and> successively (\<lambda>a b. capacity g a b > 0) p \<and>
          wf_Graph g' \<and> nodes g' = nodes g \<and> totalNodes g' = totalNodes g \<and>
          (\<forall>i j. in_range g i \<and> in_range g j \<longrightarrow>
             capacity g' i j = wrap_int (capacity g i j - int (count_list (edges_of p) (i, j))
                                                        + int (count_list (edges_of p) (j, i)))))"

definition unwired_graph :: Graph where
  "unwired_graph = connectSourceAndSinkNodes (Graph_new 2) 0 3"


definition wide_graph :: Graph where
  "wide_graph = createEdge (createEdge (createEdge (Graph_new 2) 0 1 2) 1 2 3) 2 3 2"

definition wide_engine :: FordFulkerson where
  "wide_engine =
     (FordFulkerson_new wide_graph)\<lparr>depth := [0, 1, 2, 3], maxFlow := adjacencyMatrix wide_graph\<rparr>"

text \<open>
  A graph of two nodes, 0 and 1, built with \<open>createEdge\<close>: an edge of capacity 1 from 0 to 1
  and an edge of capacity \<open>INT_MAX\<close> from 1 to 0.
\<close>

definition saturated_graph :: Graph where
  "saturated_graph = createEdge (createEdge (Graph_new 0) 0 1 1) 1 0 INT_MAX"

text \<open>
  The engine on the graph with \<open>capacity[1][0] = INT_MAX\<close>, in the state in which
  \<open>calculateMaxFlow(0, 1)\<close> calls \<open>augmentFlowAlongPath\<close>: the depths are those of
  \<open>levelGraph(0, 1)\<close> and the snapshot is the matrix.
\<close>

definition saturated_engine :: FordFulkerson where
  "saturated_engine =
     (FordFulkerson_new saturated_graph)\<lparr>depth := [0, 1], maxFlow := adjacencyMatrix saturated_graph\<rparr>"

text \<open>
  The states a phase passes through.  A state is the engine together with the three
  variables \<open>currentNode\<close>, \<open>path\<close> and \<open>backtracking\<close> at the head of the loop of
  \<open>findAugmentingPath\<close>.  \<open>search\<close> is one iteration of that loop that goes on;
  \<open>commit\<close> is the iteration that reaches the sink, after which \<open>augmentFlowAlongPath\<close>
  pushes along the path, clears it and calls \<open>findAugmentingPath\<close> again, which starts at
  the source.  \<open>phase_run source sink s s'\<close>: the phase, being in state \<open>s\<close>, later is in
  state \<open>s'\<close>.
\<close>

type_synonym search_state = "FordFulkerson \<times> int \<times> int list \<times> bool"

inductive phase_run :: "int \<Rightarrow> int \<Rightarrow> search_state \<Rightarrow> search_state \<Rightarrow> bool"
  for source sink :: int where
  here: "phase_run source sink s s"
| search:
    "phase_run source sink s (ff, node, path, bt) \<Longrightarrow> node \<noteq> sink \<Longrightarrow>
     findNextNodeInPath ff node path bt source = (True, node', path', bt', ff') \<Longrightarrow>
     node' \<noteq> sink \<Longrightarrow>
     phase_run source sink s (ff', node', path', bt')"
| commit:
    "phase_run source sink s (ff, node, path, bt) \<Longrightarrow> node \<noteq> sink \<Longrightarrow>
     findNextNodeInPath ff node path bt source = (True, sink, path', bt', ff') \<Longrightarrow>
     update_loop ff' (path' @ [sink]) = (Inr (), ff'') \<Longrightarrow>
     phase_run source sink s (ff'', source, [], False)"

definition dead_inv :: "int \<Rightarrow> int \<Rightarrow> search_state \<Rightarrow> bool" where
  "dead_inv source w s \<longleftrightarrow>
     (case s of (ff, node, path, bt) \<Rightarrow>
        wf_FF ff \<and> in_range (graph ff) w \<and> in_range (graph ff) source \<and> dead_column ff w \<and>
        node \<noteq> w \<and> w \<notin> set path \<and> in_range (graph ff) node \<and>
        (\<forall>v \<in> set path. in_range (graph ff) v))"

definition crossing_graph :: Graph where
  "crossing_graph =
     connectSourceAndSinkNodes
       (createEdge (createEdge (createEdge (Graph_new 4) 1 3 1) 1 4 1) 2 3 1) 0 5"

definition stuck_engine :: FordFulkerson where
  "stuck_engine =
     snd (update_loop
            ((FordFulkerson_new crossing_graph)
               \<lparr>depth := [0, 1, 1, 2, 2, 3], maxFlow := adjacencyMatrix crossing_graph\<rparr>)
            [0, 1, 3, 5])"

definition rowsum :: "Graph \<Rightarrow> int \<Rightarrow> int" where
  "rowsum g v = (\<Sum>b \<in> {0..totalNodes g - 1}. capacity g v b)"

text \<open>
  The two sides of the bipartite graph as \<open>createSourceNode\<close>, \<open>createSinkNode\<close> and
  \<open>printResults\<close> enumerate them: the left nodes are \<open>1 .. nodes / 2\<close>, the right nodes
  are \<open>nodes / 2 + 1 .. nodes\<close>; the source is node 0 and the sink is node \<open>nodes + 1\<close>.
\<close>

definition left_nodes :: "Graph \<Rightarrow> int list" where
  "left_nodes g = [1..nodes g sdiv 2]"

definition right_nodes :: "Graph \<Rightarrow> int list" where
  "right_nodes g = [nodes g sdiv 2 + 1..nodes g]"

definition wired :: "Graph \<Rightarrow> int \<Rightarrow> int \<Rightarrow> bool" where
  "wired g a b \<longleftrightarrow>
     a = 0 \<and> b \<in> set (left_nodes g) \<or>
     a \<in> set (right_nodes g) \<and> b = nodes g + 1 \<or>
     a \<in> set (left_nodes g) \<and> b \<in> set (right_nodes g)"

text \<open>
  A fully wired unit-capacity bipartite network: the source has an edge of capacity 1 to
  every left node, every right node has an edge of capacity 1 to the sink, between a left and
  a right node there is an edge of capacity 1 or none, and the matrix holds nothing else.
\<close>

definition bipartite_network :: "Graph \<Rightarrow> bool" where
  "bipartite_network g \<longleftrightarrow>
     wf_Graph g \<and>
     (\<forall>i \<in> set (left_nodes g). capacity g 0 i = 1) \<and>
     (\<forall>j \<in> set (right_nodes g). capacity g j (nodes g + 1) = 1) \<and>
     (\<forall>i \<in> set (left_nodes g). \<forall>j \<in> set (right_nodes g).
         capacity g i j = 0 \<or> capacity g i j = 1) \<and>
     (\<forall>a \<in> set [0..nodes g + 1]. \<forall>b \<in> set [0..nodes g + 1].
         \<not> wired g a b \<longrightarrow> capacity g a b = 0)"

definition bipartite_edges :: "Graph \<Rightarrow> (int \<times> int) set" where
  "bipartite_edges g =
     {(i, j). i \<in> set (left_nodes g) \<and> j \<in> set (right_nodes g) \<and> capacity g i j = 1}"

definition matching :: "Graph \<Rightarrow> (int \<times> int) set \<Rightarrow> bool" where
  "matching g M \<longleftrightarrow>
     M \<subseteq> bipartite_edges g \<and>
     (\<forall>e \<in> M. \<forall>e' \<in> M. fst e = fst e' \<longrightarrow> e = e') \<and>
     (\<forall>e \<in> M. \<forall>e' \<in> M. snd e = snd e' \<longrightarrow> e = e')"

text \<open>
  What the residual matrix \<open>g\<close> keeps of the network \<open>g0\<close> after \<open>k\<close> augmentations:
  no entry is negative, an entry and its mirror entry sum to what they summed to in the
  network, every row of a left or right node sums to what it summed to in the network
  (what went in went out), and \<open>k\<close> source edges are used up.
\<close>

definition flow_inv :: "Graph \<Rightarrow> nat \<Rightarrow> Graph \<Rightarrow> bool" where
  "flow_inv g0 k g \<longleftrightarrow>
     wf_Graph g \<and> nodes g = nodes g0 \<and> totalNodes g = totalNodes g0 \<and>
     (\<forall>a b. in_range g0 a \<and> in_range g0 b \<longrightarrow>
        0 \<le> capacity g a b \<and>
        capacity g a b + capacity g b a = capacity g0 a b + capacity g0 b a) \<and>
     (\<forall>v. 1 \<le> v \<and> v \<le> nodes g0 \<longrightarrow> rowsum g v = rowsum g0 v) \<and>
     card {i \<in> set (left_nodes g0). capacity g 0 i = 0} = k"

text \<open>
  The loop of \<open>GraphPrepare::readEdges\<close>, over the pairs that \<open>parseEdge\<close> returns: one
  \<open>createEdge(first, second, 1)\<close> for each (reading and parsing the file are not modelled).
\<close>

definition readEdges :: "Graph \<Rightarrow> (int \<times> int) list \<Rightarrow> Graph" where
  "readEdges g es = foldl (\<lambda>g (a, b). createEdge g a b 1) g es"

text \<open>
  The graph that \<open>calculateMaxFlow\<close> is called on: \<open>Graph(nodes)\<close>, the edges of the input,
  then \<open>connectSourceAndSinkNodes(0, nodes + 1)\<close> in \<open>BipartiteMatcher::solve\<close>.
\<close>

definition wired_network :: "int \<Rightarrow> (int \<times> int) list \<Rightarrow> Graph" where
  "wired_network n es = connectSourceAndSinkNodes (readEdges (Graph_new n) es) 0 (n + 1)"

section \<open>Wrap-around\<close>

lemma wrap_int_range: "INT_MIN \<le> wrap_int k" "wrap_int k \<le> INT_MAX"
proof -
  have "0 \<le> (k + 2147483648) mod 4294967296" "(k + 2147483648) mod 4294967296 < 4294967296"
    by simp_all
  then show "INT_MIN \<le> wrap_int k" "wrap_int k \<le> INT_MAX"
    unfolding wrap_int_def INT_MIN_def INT_MAX_def by linarith+
qed

lemma wrap_int_id: "INT_MIN \<le> k \<Longrightarrow> k \<le> INT_MAX \<Longrightarrow> wrap_int k = k"
  unfolding wrap_int_def INT_MIN_def INT_MAX_def by simp

lemma wrap_int_add: "wrap_int (wrap_int a + b) = wrap_int (a + b)"
proof -
  have "(((a + 2147483648) mod 4294967296) + b) mod 4294967296
      = ((a + 2147483648) + b) mod 4294967296"
    by (rule mod_add_left_eq)
  then show ?thesis unfolding wrap_int_def by (simp add: algebra_simps)
qed

lemma wrap_int_overflow: "wrap_int (INT_MAX + 1) = INT_MIN" "wrap_int (INT_MIN - 1) = INT_MAX"
  unfolding wrap_int_def INT_MIN_def INT_MAX_def by simp_all

section \<open>Matrix updates\<close>

lemma square_row: "square n m \<Longrightarrow> i < nat n \<Longrightarrow> length (m ! i) = nat n"
  by (simp add: square_def)

lemma square_update:
  "square n m \<Longrightarrow> square n (m[a := (m ! a)[b := x]])"
proof (cases "a < length m")
  case True
  assume sq: "square n m"
  have "m ! a \<in> set m" using True by simp
  then have "length ((m ! a)[b := x]) = nat n" using sq by (simp add: square_def)
  moreover have "set (m[a := (m ! a)[b := x]]) \<subseteq> insert ((m ! a)[b := x]) (set m)"
    by (rule set_update_subset_insert)
  ultimately show ?thesis using sq unfolding square_def by auto
next
  case False
  assume "square n m"
  then show ?thesis using False by (simp add: list_update_beyond)
qed

lemma nth_matrix_update:
  "square n m \<Longrightarrow> a < nat n \<Longrightarrow> b < nat n \<Longrightarrow> i < nat n \<Longrightarrow> j < nat n \<Longrightarrow>
   m[a := (m ! a)[b := x]] ! i ! j = (if i = a \<and> j = b then x else m ! i ! j)"
  by (auto simp: square_def nth_list_update)

lemma wf_Graph_square: "wf_Graph g \<Longrightarrow> square (totalNodes g) (adjacencyMatrix g)"
  unfolding wf_Graph_def by blast

lemma int_matrix_update:
  assumes "int_matrix m" "INT_MIN \<le> x" "x \<le> INT_MAX"
  shows "int_matrix (m[a := (m ! a)[b := x]])"
proof (cases "a < length m")
  case True
  have row: "\<forall>y \<in> set ((m ! a)[b := x]). INT_MIN \<le> y \<and> y \<le> INT_MAX"
  proof
    fix y assume "y \<in> set ((m ! a)[b := x])"
    then have "y \<in> insert x (set (m ! a))"
      using set_update_subset_insert [of "m ! a" b x] by blast
    moreover have "m ! a \<in> set m" using True by simp
    ultimately show "INT_MIN \<le> y \<and> y \<le> INT_MAX"
      using assms unfolding int_matrix_def by blast
  qed
  have "set (m[a := (m ! a)[b := x]]) \<subseteq> insert ((m ! a)[b := x]) (set m)"
    by (rule set_update_subset_insert)
  then show ?thesis using row assms(1) unfolding int_matrix_def by blast
next
  case False
  then show ?thesis using assms(1) by (simp add: list_update_beyond)
qed

lemma wf_Graph_int_matrix: "wf_Graph g \<Longrightarrow> int_matrix (adjacencyMatrix g)"
  unfolding wf_Graph_def by blast

lemma wf_Graph_int:
  assumes "wf_Graph g" "in_range g i" "in_range g j"
  shows "INT_MIN \<le> capacity g i j" "capacity g i j \<le> INT_MAX"
proof -
  from assms have sq: "square (totalNodes g) (adjacencyMatrix g)"
    and im: "int_matrix (adjacencyMatrix g)"
    unfolding wf_Graph_def by blast+
  have i: "nat i < length (adjacencyMatrix g)"
    using assms(2) sq by (auto simp: in_range_def square_def)
  then have r: "adjacencyMatrix g ! nat i \<in> set (adjacencyMatrix g)" by simp
  then have "nat j < length (adjacencyMatrix g ! nat i)"
    using assms(3) sq by (auto simp: in_range_def square_def)
  then have "capacity g i j \<in> set (adjacencyMatrix g ! nat i)" by simp
  with r im show "INT_MIN \<le> capacity g i j" "capacity g i j \<le> INT_MAX"
    unfolding int_matrix_def by blast+
qed

lemma wf_Graph_update:
  "wf_Graph g \<Longrightarrow> square (totalNodes g) m \<Longrightarrow> int_matrix m \<Longrightarrow>
   wf_Graph (g\<lparr>adjacencyMatrix := m\<rparr>)"
  unfolding wf_Graph_def by auto

lemma Graph_new_wf: "0 \<le> n \<Longrightarrow> wf_Graph (Graph_new n)"
  by (simp add: wf_Graph_def Graph_new_def initializeAdjacencyMatrix_def square_def
      int_matrix_def INT_MIN_def INT_MAX_def)

lemma createEdge_wf:
  "wf_Graph g \<Longrightarrow> INT_MIN \<le> c \<Longrightarrow> c \<le> INT_MAX \<Longrightarrow> wf_Graph (createEdge g a b c)"
  unfolding createEdge_def
  by (intro wf_Graph_update square_update wf_Graph_square int_matrix_update wf_Graph_int_matrix)

lemma updateResidualGraph_in_range:
  assumes wf: "wf_Graph (graph ff)"
    and ru: "in_range (graph ff) u" and rv: "in_range (graph ff) v"
  obtains g' where
    "updateResidualGraph ff u v = (Inr (), ff\<lparr>graph := g'\<rparr>)"
    "wf_Graph g'" "nodes g' = nodes (graph ff)" "totalNodes g' = totalNodes (graph ff)"
    "u \<noteq> v \<Longrightarrow> capacity g' u v = wrap_int (capacity (graph ff) u v - 1)"
    "u \<noteq> v \<Longrightarrow> capacity g' v u = wrap_int (capacity (graph ff) v u + 1)"
    "u = v \<Longrightarrow> capacity g' u v = capacity (graph ff) u v"
    "\<And>i j. in_range (graph ff) i \<Longrightarrow> in_range (graph ff) j \<Longrightarrow>
        (i, j) \<noteq> (u, v) \<Longrightarrow> (i, j) \<noteq> (v, u) \<Longrightarrow> capacity g' i j = capacity (graph ff) i j"
proof -
  define n where "n = totalNodes (graph ff)"
  define m where "m = adjacencyMatrix (graph ff)"
  define m1 where "m1 = m[nat v := (m ! nat v)[nat u := wrap_int (m ! nat v ! nat u + 1)]]"
  define m2 where "m2 = m1[nat u := (m1 ! nat u)[nat v := wrap_int (m1 ! nat u ! nat v - 1)]]"
  define g' where "g' = (graph ff)\<lparr>adjacencyMatrix := m2\<rparr>"
  have sq: "square n m" using wf_Graph_square [OF wf] by (simp add: n_def m_def)
  have sq1: "square n m1" unfolding m1_def by (rule square_update [OF sq])
  have sq2: "square n m2" unfolding m2_def by (rule square_update [OF sq1])
  have im: "int_matrix m" using wf_Graph_int_matrix [OF wf] by (simp add: m_def)
  have im1: "int_matrix m1" unfolding m1_def by (rule int_matrix_update [OF im wrap_int_range])
  have im2: "int_matrix m2" unfolding m2_def by (rule int_matrix_update [OF im1 wrap_int_range])
  have un: "nat u < nat n" "nat v < nat n" "0 \<le> u" "0 \<le> v"
    using ru rv by (auto simp: in_range_def n_def)
  have res: "updateResidualGraph ff u v = (Inr (), ff\<lparr>graph := g'\<rparr>)"
    using ru rv
    by (simp add: updateResidualGraph_def updateResidualGraph_try_def catch_rethrow_def
        in_range_def getNodes_def Let_def g'_def m2_def m1_def m_def)
  have same1: "m1 ! nat v ! nat u = wrap_int (m ! nat v ! nat u + 1)"
    unfolding m1_def using un sq by (simp add: square_def)
  have other1: "m1 ! nat a ! nat b = m ! nat a ! nat b"
    if "nat a < nat n" "nat b < nat n" "0 \<le> a" "0 \<le> b" "a \<noteq> v \<or> b \<noteq> u" for a b
    unfolding m1_def using that un sq by (auto simp: square_def nth_list_update)
  have same2: "m2 ! nat u ! nat v = wrap_int (m1 ! nat u ! nat v - 1)"
    unfolding m2_def using un sq1 by (simp add: square_def)
  have other2: "m2 ! nat a ! nat b = m1 ! nat a ! nat b"
    if "nat a < nat n" "nat b < nat n" "0 \<le> a" "0 \<le> b" "a \<noteq> u \<or> b \<noteq> v" for a b
    unfolding m2_def using that un sq1 by (auto simp: square_def nth_list_update)
  have wf': "wf_Graph g'"
    unfolding g'_def using wf sq2 im2 by (auto simp: n_def intro: wf_Graph_update)
  have fwd: "capacity g' u v = wrap_int (capacity (graph ff) u v - 1)" if "u \<noteq> v"
  proof -
    have "m1 ! nat u ! nat v = m ! nat u ! nat v"
      using that by (intro other1 un) simp
    with same2 show ?thesis by (simp add: g'_def m_def)
  qed
  have bwd: "capacity g' v u = wrap_int (capacity (graph ff) v u + 1)" if "u \<noteq> v"
  proof -
    have "m2 ! nat v ! nat u = m1 ! nat v ! nat u"
      using that by (intro other2 un) simp
    with same1 show ?thesis by (simp add: g'_def m_def)
  qed
  have diag: "capacity g' u v = capacity (graph ff) u v" if "u = v"
  proof -
    have "capacity g' u u = wrap_int (wrap_int (capacity (graph ff) u u + 1) + (- 1))"
      using same1 same2 that by (simp add: g'_def m_def)
    also have "\<dots> = wrap_int (capacity (graph ff) u u)"
      unfolding wrap_int_add by simp
    also have "\<dots> = capacity (graph ff) u u"
      by (rule wrap_int_id) (rule wf_Graph_int [OF wf ru ru])+
    finally show ?thesis using that by simp
  qed
  have other: "capacity g' i j = capacity (graph ff) i j"
    if "in_range (graph ff) i" "in_range (graph ff) j" "(i, j) \<noteq> (u, v)" "(i, j) \<noteq> (v, u)" for i j
  proof -
    have ij: "nat i < nat n" "nat j < nat n" "0 \<le> i" "0 \<le> j"
      using that by (auto simp: in_range_def n_def)
    have d1: "i \<noteq> u \<or> j \<noteq> v" and d2: "i \<noteq> v \<or> j \<noteq> u" using that by blast+
    have "m2 ! nat i ! nat j = m1 ! nat i ! nat j" by (intro other2 ij d1)
    moreover have "m1 ! nat i ! nat j = m ! nat i ! nat j" by (intro other1 ij d2)
    ultimately show ?thesis by (simp add: g'_def m_def)
  qed
  show thesis
    by (rule that [OF res wf' _ _ fwd bwd diag other]) (simp_all add: g'_def)
qed

lemma updateResidualGraph_out_of_range:
  assumes "\<not> (in_range (graph ff) u \<and> in_range (graph ff) v)"
  shows "updateResidualGraph_try ff u v =
           (Inl (out_of_range ''Source or destination node is out of valid range.''), ff)"
    and "updateResidualGraph ff u v =
           (Inl (runtime_error
              ''Error in updateResidualGraph: Source or destination node is out of valid range.''), ff)"
proof -
  show a: "updateResidualGraph_try ff u v =
           (Inl (out_of_range ''Source or destination node is out of valid range.''), ff)"
    using assms by (auto simp: updateResidualGraph_try_def in_range_def getNodes_def)
  show "updateResidualGraph ff u v =
           (Inl (runtime_error
              ''Error in updateResidualGraph: Source or destination node is out of valid range.''), ff)"
    by (simp add: updateResidualGraph_def catch_rethrow_def a)
qed

lemma example_graph_eval:
  "example_graph =
     \<lparr>nodes = 4, totalNodes = 6,
      adjacencyMatrix =
        [[0, 1, 1, 0, 0, 0], [0, 0, 0, 1, 0, 0], [0, 0, 0, 1, 1, 0],
         [0, 0, 0, 0, 0, 1], [0, 0, 0, 0, 0, 1], [0, 0, 0, 0, 0, 0]]\<rparr>"
  by code_simp

lemma example_graph_wf: "wf_Graph example_graph"
  by code_simp

lemma extreme_graph_eval:
  "extreme_graph =
     \<lparr>nodes = 0, totalNodes = 2, adjacencyMatrix = [[0, - 2147483648], [2147483647, 0]]\<rparr>"
  by code_simp

text \<open>
  Claim C4.  On a well-formed graph, \<open>updateResidualGraph(u, v)\<close> with both indices in
  \<open>[0, totalNodes)\<close> returns normally after \<open>capacity[v][u] += 1\<close> and
  \<open>capacity[u][v] -= 1\<close>.  For \<open>u \<noteq> v\<close> the entry \<open>(u, v)\<close> is one less than before when
  it was above \<open>INT_MIN\<close>, the entry \<open>(v, u)\<close> is one more than before when it was below
  \<open>INT_MAX\<close>, and when both hold the sum \<open>capacity[u][v] + capacity[v][u]\<close> is what it was.
  For \<open>u = v\<close> both statements hit the same entry, which is left as it was.  Every other
  entry is unchanged.  The call fails if and only if \<open>u\<close> or \<open>v\<close> is outside the range: the
  range check throws \<open>std::out_of_range\<close>, the handler of the function catches it, and what
  leaves the function is a \<open>std::runtime_error\<close> carrying the same message behind the
  prefix; the state is untouched.
\<close>

theorem updateResidualGraph_spec:
  assumes wf: "wf_Graph (graph ff)"
  shows "(in_range (graph ff) u \<and> in_range (graph ff) v \<longrightarrow>
            (\<exists>g'. updateResidualGraph ff u v = (Inr (), ff\<lparr>graph := g'\<rparr>) \<and>
                  wf_Graph g' \<and> nodes g' = nodes (graph ff) \<and> totalNodes g' = totalNodes (graph ff) \<and>
                  (u \<noteq> v \<and> INT_MIN < capacity (graph ff) u v \<longrightarrow>
                     capacity g' u v = capacity (graph ff) u v - 1) \<and>
                  (u \<noteq> v \<and> capacity (graph ff) v u < INT_MAX \<longrightarrow>
                     capacity g' v u = capacity (graph ff) v u + 1) \<and>
                  (u \<noteq> v \<and> INT_MIN < capacity (graph ff) u v \<and> capacity (graph ff) v u < INT_MAX \<longrightarrow>
                     capacity g' u v + capacity g' v u =
                       capacity (graph ff) u v + capacity (graph ff) v u) \<and>
                  (u = v \<longrightarrow> capacity g' u v = capacity (graph ff) u v) \<and>
                  (\<forall>i j. in_range (graph ff) i \<and> in_range (graph ff) j \<and>
                         (i, j) \<noteq> (u, v) \<and> (i, j) \<noteq> (v, u) \<longrightarrow>
                         capacity g' i j = capacity (graph ff) i j)))
       \<and> (\<not> (in_range (graph ff) u \<and> in_range (graph ff) v) \<longrightarrow>
            updateResidualGraph_try ff u v =
              (Inl (out_of_range ''Source or destination node is out of valid range.''), ff) \<and>
            updateResidualGraph ff u v =
              (Inl (runtime_error
                 ''Error in updateResidualGraph: Source or destination node is out of valid range.''), ff))"
proof (intro conjI impI)
  assume r: "in_range (graph ff) u \<and> in_range (graph ff) v"
  then have ru: "in_range (graph ff) u" and rv: "in_range (graph ff) v" by blast+
  from updateResidualGraph_in_range [OF wf ru rv] obtain g' where g':
    "updateResidualGraph ff u v = (Inr (), ff\<lparr>graph := g'\<rparr>)"
    "wf_Graph g'" "nodes g' = nodes (graph ff)" "totalNodes g' = totalNodes (graph ff)"
    "u \<noteq> v \<Longrightarrow> capacity g' u v = wrap_int (capacity (graph ff) u v - 1)"
    "u \<noteq> v \<Longrightarrow> capacity g' v u = wrap_int (capacity (graph ff) v u + 1)"
    "u = v \<Longrightarrow> capacity g' u v = capacity (graph ff) u v"
    "\<And>i j. in_range (graph ff) i \<Longrightarrow> in_range (graph ff) j \<Longrightarrow>
        (i, j) \<noteq> (u, v) \<Longrightarrow> (i, j) \<noteq> (v, u) \<Longrightarrow> capacity g' i j = capacity (graph ff) i j"
    by blast
  note uv = wf_Graph_int [OF wf ru rv] and vu = wf_Graph_int [OF wf rv ru]
  have fwd: "capacity g' u v = capacity (graph ff) u v - 1"
    if "u \<noteq> v \<and> INT_MIN < capacity (graph ff) u v"
  proof -
    have "wrap_int (capacity (graph ff) u v - 1) = capacity (graph ff) u v - 1"
      by (rule wrap_int_id) (use that uv in simp_all)
    with g'(5) that show ?thesis by simp
  qed
  have bwd: "capacity g' v u = capacity (graph ff) v u + 1"
    if "u \<noteq> v \<and> capacity (graph ff) v u < INT_MAX"
  proof -
    have "wrap_int (capacity (graph ff) v u + 1) = capacity (graph ff) v u + 1"
      by (rule wrap_int_id) (use that vu in simp_all)
    with g'(6) that show ?thesis by simp
  qed
  show "\<exists>g'. updateResidualGraph ff u v = (Inr (), ff\<lparr>graph := g'\<rparr>) \<and>
                  wf_Graph g' \<and> nodes g' = nodes (graph ff) \<and> totalNodes g' = totalNodes (graph ff) \<and>
                  (u \<noteq> v \<and> INT_MIN < capacity (graph ff) u v \<longrightarrow>
                     capacity g' u v = capacity (graph ff) u v - 1) \<and>
                  (u \<noteq> v \<and> capacity (graph ff) v u < INT_MAX \<longrightarrow>
                     capacity g' v u = capacity (graph ff) v u + 1) \<and>
                  (u \<noteq> v \<and> INT_MIN < capacity (graph ff) u v \<and> capacity (graph ff) v u < INT_MAX \<longrightarrow>
                     capacity g' u v + capacity g' v u =
                       capacity (graph ff) u v + capacity (graph ff) v u) \<and>
                  (u = v \<longrightarrow> capacity g' u v = capacity (graph ff) u v) \<and>
                  (\<forall>i j. in_range (graph ff) i \<and> in_range (graph ff) j \<and>
                         (i, j) \<noteq> (u, v) \<and> (i, j) \<noteq> (v, u) \<longrightarrow>
                         capacity g' i j = capacity (graph ff) i j)"
  proof (intro exI [of _ g'] conjI impI allI)
    show "updateResidualGraph ff u v = (Inr (), ff\<lparr>graph := g'\<rparr>)" by (rule g'(1))
    show "wf_Graph g'" by (rule g'(2))
    show "nodes g' = nodes (graph ff)" by (rule g'(3))
    show "totalNodes g' = totalNodes (graph ff)" by (rule g'(4))
    show "capacity g' u v = capacity (graph ff) u v - 1"
      if "u \<noteq> v \<and> INT_MIN < capacity (graph ff) u v"
      by (rule fwd [OF that])
    show "capacity g' v u = capacity (graph ff) v u + 1"
      if "u \<noteq> v \<and> capacity (graph ff) v u < INT_MAX"
      by (rule bwd [OF that])
    show "capacity g' u v + capacity g' v u = capacity (graph ff) u v + capacity (graph ff) v u"
      if "u \<noteq> v \<and> INT_MIN < capacity (graph ff) u v \<and> capacity (graph ff) v u < INT_MAX"
      using fwd bwd that by simp
    show "capacity g' u v = capacity (graph ff) u v" if "u = v" by (rule g'(7) [OF that])
    show "capacity g' i j = capacity (graph ff) i j"
      if "in_range (graph ff) i \<and> in_range (graph ff) j \<and> (i, j) \<noteq> (u, v) \<and> (i, j) \<noteq> (v, u)" for i j
      using that g'(8) by blast
  qed
next
  assume "\<not> (in_range (graph ff) u \<and> in_range (graph ff) v)"
  then show "updateResidualGraph_try ff u v =
              (Inl (out_of_range ''Source or destination node is out of valid range.''), ff)"
    by (rule updateResidualGraph_out_of_range)
next
  assume "\<not> (in_range (graph ff) u \<and> in_range (graph ff) v)"
  then show "updateResidualGraph ff u v =
              (Inl (runtime_error
                 ''Error in updateResidualGraph: Source or destination node is out of valid range.''), ff)"
    by (rule updateResidualGraph_out_of_range)
qed

theorem updateResidualGraph_spec_witness:
  "wf_Graph (graph (FordFulkerson_new example_graph)) \<and>
   (\<exists>g'. updateResidualGraph (FordFulkerson_new example_graph) 0 1 =
            (Inr (), (FordFulkerson_new example_graph)\<lparr>graph := g'\<rparr>) \<and>
         capacity g' 0 1 = 0 \<and> capacity g' 1 0 = 1 \<and> capacity g' 0 2 = 1) \<and>
   updateResidualGraph (FordFulkerson_new example_graph) 0 6 =
     (Inl (runtime_error
        ''Error in updateResidualGraph: Source or destination node is out of valid range.''),
      FordFulkerson_new example_graph)"
proof -
  let ?ff = "FordFulkerson_new example_graph"
  have g: "graph ?ff = example_graph" by (simp add: FordFulkerson_new_def)
  have wf: "wf_Graph (graph ?ff)" unfolding g by (rule example_graph_wf)
  have r: "in_range (graph ?ff) 0" "in_range (graph ?ff) 1" "in_range (graph ?ff) 2"
    "\<not> in_range (graph ?ff) 6"
    unfolding g by (simp_all add: in_range_def example_graph_eval)
  have c: "capacity example_graph 0 1 = 1" "capacity example_graph 1 0 = 0"
    "capacity example_graph 0 2 = 1"
    by (simp_all add: example_graph_eval)
  have b: "INT_MIN < capacity (graph ?ff) 0 1" "capacity (graph ?ff) 1 0 < INT_MAX"
    unfolding g c by (simp_all add: INT_MIN_def INT_MAX_def)
  from updateResidualGraph_spec [OF wf, of 0 1] r b obtain g' where g':
    "updateResidualGraph ?ff 0 1 = (Inr (), ?ff\<lparr>graph := g'\<rparr>)"
    "capacity g' 0 1 = capacity (graph ?ff) 0 1 - 1"
    "capacity g' 1 0 = capacity (graph ?ff) 1 0 + 1"
    "\<forall>i j. in_range (graph ?ff) i \<and> in_range (graph ?ff) j \<and>
           (i, j) \<noteq> (0, 1) \<and> (i, j) \<noteq> (1, 0) \<longrightarrow> capacity g' i j = capacity (graph ?ff) i j"
    by auto
  from g'(4) [rule_format, of 0 2] r have "capacity g' 0 2 = capacity (graph ?ff) 0 2" by simp
  with g' c have "updateResidualGraph ?ff 0 1 = (Inr (), ?ff\<lparr>graph := g'\<rparr>) \<and>
         capacity g' 0 1 = 0 \<and> capacity g' 1 0 = 1 \<and> capacity g' 0 2 = 1"
    by (simp add: g)
  then have "\<exists>g'. updateResidualGraph ?ff 0 1 = (Inr (), ?ff\<lparr>graph := g'\<rparr>) \<and>
         capacity g' 0 1 = 0 \<and> capacity g' 1 0 = 1 \<and> capacity g' 0 2 = 1" ..
  moreover from updateResidualGraph_spec [OF wf, of 0 6] r
  have "updateResidualGraph ?ff 0 6 =
     (Inl (runtime_error
        ''Error in updateResidualGraph: Source or destination node is out of valid range.''), ?ff)"
    by simp
  ultimately show ?thesis using wf by blast
qed

text \<open>
  Three calls.  With \<open>v = 6\<close> on the six-node example network, what leaves the function is
  a \<open>std::runtime_error\<close>, not a \<open>std::out_of_range\<close>.  With \<open>u = v = 1\<close> the entry
  \<open>capacity[1][1]\<close> is 0 before and after: it is not one less.  On the well-formed
  two-node graph with \<open>capacity[0][1] = INT_MIN\<close> and \<open>capacity[1][0] = INT_MAX\<close>, the call
  with \<open>u = 0\<close>, \<open>v = 1\<close> leaves \<open>INT_MAX\<close> in the first entry and \<open>INT_MIN\<close> in the second:
  the first is not one less and the second is not one more.
\<close>

theorem updateResidualGraph_spec_counterexample:
  "updateResidualGraph (FordFulkerson_new example_graph) 0 6 =
     (Inl (runtime_error
        ''Error in updateResidualGraph: Source or destination node is out of valid range.''),
      FordFulkerson_new example_graph) \<and>
   capacity example_graph 1 1 = 0 \<and>
   fst (updateResidualGraph (FordFulkerson_new example_graph) 1 1) = Inr () \<and>
   capacity (graph (snd (updateResidualGraph (FordFulkerson_new example_graph) 1 1))) 1 1 = 0 \<and>
   wf_Graph extreme_graph \<and>
   capacity extreme_graph 0 1 = - 2147483648 \<and>
   capacity extreme_graph 1 0 = 2147483647 \<and>
   fst (updateResidualGraph (FordFulkerson_new extreme_graph) 0 1) = Inr () \<and>
   capacity (graph (snd (updateResidualGraph (FordFulkerson_new extreme_graph) 0 1))) 0 1 =
     2147483647 \<and>
   capacity (graph (snd (updateResidualGraph (FordFulkerson_new extreme_graph) 0 1))) 1 0 =
     - 2147483648"
proof -
  let ?ff = "FordFulkerson_new example_graph"
  have "\<not> (in_range (graph ?ff) 0 \<and> in_range (graph ?ff) 6)"
    by (simp add: FordFulkerson_new_def in_range_def example_graph_eval)
  then have a: "updateResidualGraph ?ff 0 6 =
     (Inl (runtime_error
        ''Error in updateResidualGraph: Source or destination node is out of valid range.''), ?ff)"
    by (rule updateResidualGraph_out_of_range)
  have b: "capacity example_graph 1 1 = 0" by (simp add: example_graph_eval)
  have c: "fst (updateResidualGraph ?ff 1 1) = Inr ()" by code_simp
  have d: "capacity (graph (snd (updateResidualGraph ?ff 1 1))) 1 1 = 0" by code_simp
  have w: "wf_Graph extreme_graph" by code_simp
  have e: "capacity extreme_graph 0 1 = - 2147483648" "capacity extreme_graph 1 0 = 2147483647"
    by (simp_all add: extreme_graph_eval)
  have f: "fst (updateResidualGraph (FordFulkerson_new extreme_graph) 0 1) = Inr ()"
    by code_simp
  have h: "capacity (graph (snd (updateResidualGraph (FordFulkerson_new extreme_graph) 0 1))) 0 1 =
     2147483647"
    "capacity (graph (snd (updateResidualGraph (FordFulkerson_new extreme_graph) 0 1))) 1 0 =
     - 2147483648"
    by code_simp+
  from a b c d w e f h show ?thesis by blast
qed

section \<open>Adjacency\<close>

text \<open>
  Claim C8.  \<open>findAdjacentNodes(u)\<close> returns exactly the nodes \<open>v\<close> of \<open>[0, totalNodes)\<close>
  with \<open>capacity[u][v] > 0\<close>, in strictly increasing order of index.  The reported
  matching is a function of the input alone: every function of this embedding computes
  its result from its arguments, as the code reads nothing but the graph it was given.
\<close>

theorem findAdjacentNodes_spec:
  "set (findAdjacentNodes g u) = {v. 0 \<le> v \<and> v < totalNodes g \<and> capacity g u v > 0} \<and>
   sorted_wrt (<) (findAdjacentNodes g u)"
  unfolding findAdjacentNodes_def
  by (auto intro: sorted_wrt_filter)

section \<open>The matching extractor\<close>

lemma printResults_inner_foldl:
  "foldl (\<lambda>(out, matches) n.
              if capacity g n i = 1
              then (out @ [(i, n)], matches + 1)
              else (out, matches)) (out, k) ns =
   (out @ map (Pair i) (filter (\<lambda>n. capacity g n i = 1) ns),
    k + int (length (filter (\<lambda>n. capacity g n i = 1) ns)))"
  by (induction ns arbitrary: out k) simp_all

lemma printResults_inner_eq:
  "printResults_inner g i (out, k) =
   (out @ map (Pair i) (filter (\<lambda>n. capacity g n i = 1) [nodes g sdiv 2 + 1..nodes g]),
    k + int (length (filter (\<lambda>n. capacity g n i = 1) [nodes g sdiv 2 + 1..nodes g])))"
  unfolding printResults_inner_def by (rule printResults_inner_foldl)

lemma printResults_outer_foldl:
  "foldl (\<lambda>acc i. printResults_inner g i acc) (out, k) is =
   (out @ concat (map (\<lambda>i. map (Pair i) (filter (\<lambda>n. capacity g n i = 1) [nodes g sdiv 2 + 1..nodes g])) is),
    k + int (length (concat (map (\<lambda>i. map (Pair i) (filter (\<lambda>n. capacity g n i = 1) [nodes g sdiv 2 + 1..nodes g])) is))))"
  by (induction "is" arbitrary: out k) (simp_all add: printResults_inner_eq)

lemma printResults_pairs_eq:
  "printResults_pairs g = (matchedPairs g, int (length (matchedPairs g)))"
  unfolding printResults_pairs_def matchedPairs_def
  by (simp add: printResults_outer_foldl)

lemma set_matchedPairs:
  "set (matchedPairs g) =
     {(i, n). 1 \<le> i \<and> i \<le> nodes g sdiv 2 \<and> nodes g sdiv 2 + 1 \<le> n \<and> n \<le> nodes g \<and>
              capacity g n i = 1}"
  unfolding matchedPairs_def by auto

lemma distinct_concat_Pair:
  "distinct is \<Longrightarrow> (\<And>i. distinct (f i)) \<Longrightarrow>
   distinct (concat (map (\<lambda>i. map (Pair i) (f i)) is))"
  by (induction "is") (auto simp: distinct_map inj_on_def)

lemma distinct_matchedPairs: "distinct (matchedPairs g)"
  unfolding matchedPairs_def
  by (rule distinct_concat_Pair) simp_all

text \<open>
  Claim C9.  \<open>printResults\<close> reports the pair of a left node \<open>i\<close>
  (\<open>1 \<le> i \<le> nodes/2\<close>) and a right node \<open>n\<close> (\<open>nodes/2 + 1 \<le> n \<le> nodes\<close>) if and only if
  \<open>capacity[n][i] = 1\<close>, each pair once; the number it prints is the number of such
  pairs; and the lines are those of the pairs.  \<open>printResults\<close> is a \<open>const\<close> member
  function: it returns its output and no graph.
\<close>

theorem printResults_spec:
  "(\<forall>i n. (i, n) \<in> set (fst (printResults_pairs g)) \<longleftrightarrow>
       1 \<le> i \<and> i \<le> nodes g sdiv 2 \<and> nodes g sdiv 2 + 1 \<le> n \<and> n \<le> nodes g \<and> capacity g n i = 1) \<and>
   distinct (fst (printResults_pairs g)) \<and>
   snd (printResults_pairs g) =
     int (card {(i, n). 1 \<le> i \<and> i \<le> nodes g sdiv 2 \<and> nodes g sdiv 2 + 1 \<le> n \<and> n \<le> nodes g \<and>
                        capacity g n i = 1}) \<and>
   printResults g names =
     (map (\<lambda>(i, n). names ! nat i @ '' / '' @ names ! nat n) (fst (printResults_pairs g)),
      snd (printResults_pairs g))"
proof (intro conjI allI)
  show "distinct (fst (printResults_pairs g))"
    by (simp add: printResults_pairs_eq distinct_matchedPairs)
  show "snd (printResults_pairs g) =
     int (card {(i, n). 1 \<le> i \<and> i \<le> nodes g sdiv 2 \<and> nodes g sdiv 2 + 1 \<le> n \<and> n \<le> nodes g \<and>
                        capacity g n i = 1})"
    using distinct_card [OF distinct_matchedPairs, of g]
    by (simp add: printResults_pairs_eq set_matchedPairs)
  show "printResults g names =
     (map (\<lambda>(i, n). names ! nat i @ '' / '' @ names ! nat n) (fst (printResults_pairs g)),
      snd (printResults_pairs g))"
    by (simp add: printResults_def split: prod.splits)
  show "(i, n) \<in> set (fst (printResults_pairs g)) \<longleftrightarrow>
       1 \<le> i \<and> i \<le> nodes g sdiv 2 \<and> nodes g sdiv 2 + 1 \<le> n \<and> n \<le> nodes g \<and> capacity g n i = 1" for i n
    by (simp add: printResults_pairs_eq set_matchedPairs)
qed

subsection \<open>clearMaxFlowAtNode\<close>

lemma clear_foldl:
  "k \<le> length m \<Longrightarrow>
   foldl (\<lambda>mf i. mf[nat i := (mf ! nat i)[c := 0]]) m [0..int k - 1] =
   map (\<lambda>row. row[c := (0::int)]) (take k m) @ drop k m"
proof (induction k)
  case 0
  then show ?case by simp
next
  case (Suc k)
  then have k: "k < length m" by simp
  have up: "[0..int k] = [0..int k - 1] @ [int k]"
    using upto_rec2 [of 0 "int k"] by simp
  let ?f = "\<lambda>row. row[c := (0::int)]"
  have len: "length (map ?f (take k m)) = k" using k by simp
  have nth: "(map ?f (take k m) @ drop k m) ! k = m ! k"
    using k by (simp add: nth_append)
  have "(map ?f (take k m) @ drop k m)[k := ?f (m ! k)] =
        map ?f (take k m) @ (drop k m)[0 := ?f (m ! k)]"
    using len by (simp add: list_update_append)
  also have "(drop k m)[0 := ?f (m ! k)] = ?f (m ! k) # drop (Suc k) m"
    using k by (simp add: Cons_nth_drop_Suc [symmetric])
  also have "map ?f (take k m) @ ?f (m ! k) # drop (Suc k) m =
             map ?f (take (Suc k) m) @ drop (Suc k) m"
    using k by (simp add: take_Suc_conv_app_nth)
  finally show ?case
    using Suc.IH k by (simp add: up nth)
qed

lemma clearMaxFlowAtNode_maxFlow:
  assumes "wf_FF ff"
  shows "maxFlow (clearMaxFlowAtNode ff node) = map (\<lambda>row. row[nat node := 0]) (maxFlow ff)"
proof -
  have len: "length (maxFlow ff) = nat (totalNodes (graph ff))"
    using assms by (simp add: wf_FF_def square_def)
  have nn: "0 \<le> totalNodes (graph ff)"
    using assms unfolding wf_FF_def wf_Graph_def by auto
  have "int (nat (totalNodes (graph ff))) - 1 = totalNodes (graph ff) - 1" using nn by simp
  with clear_foldl [of "nat (totalNodes (graph ff))" "maxFlow ff" "nat node"] len
  show ?thesis by (simp add: clearMaxFlowAtNode_def getNodes_def)
qed

lemma clearMaxFlowAtNode_other [simp]:
  "graph (clearMaxFlowAtNode ff node) = graph ff"
  "depth (clearMaxFlowAtNode ff node) = depth ff"
  by (simp_all add: clearMaxFlowAtNode_def)

lemma clearMaxFlowAtNode_wf:
  assumes "wf_FF ff"
  shows "wf_FF (clearMaxFlowAtNode ff node)"
  using assms clearMaxFlowAtNode_maxFlow [OF assms, of node]
  unfolding wf_FF_def square_def by auto

lemma clearMaxFlowAtNode_entry:
  assumes wf: "wf_FF ff" and i: "in_range (graph ff) i" and j: "in_range (graph ff) j"
    and w: "0 \<le> w"
  shows "maxFlow (clearMaxFlowAtNode ff w) ! nat i ! nat j =
         (if j = w then 0 else maxFlow ff ! nat i ! nat j)"
proof -
  have sq: "square (totalNodes (graph ff)) (maxFlow ff)" using wf by (simp add: wf_FF_def)
  have ii: "nat i < length (maxFlow ff)" using i sq by (auto simp: in_range_def square_def)
  then have row: "length (maxFlow ff ! nat i) = nat (totalNodes (graph ff))"
    using sq by (simp add: square_def)
  have jj: "nat j < length (maxFlow ff ! nat i)" using j row by (auto simp: in_range_def)
  have eq: "nat w = nat j \<longleftrightarrow> j = w" using j w by (auto simp: in_range_def)
  show ?thesis
  proof (cases "j = w")
    case True
    then show ?thesis using ii jj by (simp add: clearMaxFlowAtNode_maxFlow [OF wf])
  next
    case False
    then have "nat w \<noteq> nat j" using eq by simp
    then show ?thesis using ii False by (simp add: clearMaxFlowAtNode_maxFlow [OF wf])
  qed
qed

lemma clearMaxFlowAtNode_dead:
  assumes "wf_FF ff" "in_range (graph ff) w"
  shows "dead_column (clearMaxFlowAtNode ff w) w"
  using assms clearMaxFlowAtNode_entry [OF assms(1) _ assms(2), of _ w]
  by (simp add: dead_column_def in_range_def)

lemma clearMaxFlowAtNode_dead_mono:
  assumes "wf_FF ff" "in_range (graph ff) w" "0 \<le> x" "dead_column ff w"
  shows "dead_column (clearMaxFlowAtNode ff x) w"
  using assms clearMaxFlowAtNode_entry [OF assms(1) _ assms(2) assms(3)]
  by (simp add: dead_column_def)

lemma set_findAdjacentNodes:
  "v \<in> set (findAdjacentNodes g u) \<longleftrightarrow> in_range g v \<and> capacity g u v > 0"
  by (auto simp: findAdjacentNodes_def in_range_def)

lemma no_admissible_iff:
  "in_range (graph ff) node \<Longrightarrow> no_admissible ff node \<longleftrightarrow> (\<forall>v. \<not> admissible ff node v)"
  unfolding no_admissible_def find_None_iff admissible_def set_findAdjacentNodes by blast

lemma find_admissible:
  assumes "find (\<lambda>neighbor. depth ff ! nat node + 1 = depth ff ! nat neighbor \<and>
                       maxFlow ff ! nat node ! nat neighbor > 0)
                (findAdjacentNodes (graph ff) node) = Some nb"
    and "in_range (graph ff) node"
  shows "admissible ff node nb"
proof -
  from assms(1) have "nb \<in> set (findAdjacentNodes (graph ff) node)"
    and "depth ff ! nat node + 1 = depth ff ! nat nb \<and> maxFlow ff ! nat node ! nat nb > 0"
    by (auto simp: find_Some_iff)
  then show ?thesis using assms(2) by (simp add: admissible_def set_findAdjacentNodes)
qed

lemma findNext_advance:
  assumes "find (\<lambda>neighbor. depth ff ! nat node + 1 = depth ff ! nat neighbor \<and>
                       maxFlow ff ! nat node ! nat neighbor > 0)
                (findAdjacentNodes (graph ff) node) = Some nb"
  shows "findNextNodeInPath ff node path bt source =
           (True, nb, search_chain node path bt, False, ff)"
  using assms by (simp add: findNextNodeInPath_def search_chain_def)

lemma findNext_source:
  assumes "no_admissible ff node" "node = source"
  shows "findNextNodeInPath ff node path bt source =
           (False, node, search_chain node path bt, False, ff)"
  using assms by (simp add: findNextNodeInPath_def search_chain_def no_admissible_def)

lemma findNext_dead_end:
  assumes "no_admissible ff node" "node \<noteq> source"
  shows "findNextNodeInPath ff node path bt source =
           (True,
            (if butlast (search_chain node path bt) \<noteq> []
             then last (butlast (search_chain node path bt)) else node),
            butlast (search_chain node path bt), True, clearMaxFlowAtNode ff node)"
  using assms by (simp add: findNextNodeInPath_def search_chain_def no_admissible_def Let_def)

subsection \<open>Chains\<close>

lemma chain_in_range:
  "successively (admissible ff) c \<Longrightarrow> c \<noteq> [] \<Longrightarrow> in_range (graph ff) (hd c) \<Longrightarrow>
   \<forall>v \<in> set c. in_range (graph ff) v"
proof (induction c)
  case Nil
  then show ?case by simp
next
  case (Cons x xs)
  show ?case
  proof (cases "xs = []")
    case True
    with Cons.prems show ?thesis by simp
  next
    case False
    from Cons.prems(1) False have a: "admissible ff x (hd xs)" and s: "successively (admissible ff) xs"
      unfolding successively_Cons by blast+
    from a have "in_range (graph ff) (hd xs)" unfolding admissible_def by blast
    from Cons.IH [OF s False this] Cons.prems(3) show ?thesis by simp
  qed
qed

lemma chain_sorted:
  assumes "successively (admissible ff) c"
  shows "sorted_wrt (<) (map (\<lambda>v. depth ff ! nat v) c)"
proof -
  have "successively (\<lambda>u v. depth ff ! nat u < depth ff ! nat v) c"
    by (rule successively_mono [OF assms]) (simp add: admissible_def)
  moreover have "transp (\<lambda>u v. depth ff ! nat u < depth ff ! nat v)"
    by (auto simp: transp_def)
  ultimately have "sorted_wrt (\<lambda>u v. depth ff ! nat u < depth ff ! nat v) c"
    by (simp add: successively_conv_sorted_wrt)
  then show ?thesis by (simp add: sorted_wrt_map)
qed

lemma chain_distinct:
  assumes "successively (admissible ff) c"
  shows "distinct c"
  using chain_sorted [OF assms] by (auto simp: strict_sorted_iff distinct_map)

lemma card_in_range: "card {v. in_range g v} = nat (totalNodes g)"
proof -
  have "{v. in_range g v} = {0..<totalNodes g}" by (auto simp: in_range_def)
  then show ?thesis by simp
qed

lemma finite_in_range: "finite {v. in_range g v}"
proof -
  have "{v. in_range g v} = {0..<totalNodes g}" by (auto simp: in_range_def)
  then show ?thesis by simp
qed

lemma distinct_in_range_length:
  assumes "distinct c" "\<forall>v \<in> set c. in_range g v"
  shows "length c \<le> nat (totalNodes g)"
proof -
  have "length c = card (set c)" using assms(1) by (simp add: distinct_card)
  also have "\<dots> \<le> card {v. in_range g v}"
    using assms(2) by (intro card_mono finite_in_range) auto
  finally show ?thesis by (simp add: card_in_range)
qed

lemma dfs_inv_chain_facts:
  assumes "dfs_inv ff source node path bt"
  shows "distinct (search_chain node path bt)"
    and "\<forall>v \<in> set (search_chain node path bt). in_range (graph ff) v"
    and "length (search_chain node path bt) \<le> nat (totalNodes (graph ff))"
    and "in_range (graph ff) node"
proof -
  let ?c = "search_chain node path bt"
  from assms have c: "?c \<noteq> []" "hd ?c = source" "last ?c = node"
    "successively (admissible ff) ?c" "in_range (graph ff) source"
    by (simp_all add: dfs_inv_def)
  show d: "distinct ?c" by (rule chain_distinct [OF c(4)])
  show r: "\<forall>v \<in> set ?c. in_range (graph ff) v"
    using chain_in_range [OF c(4) c(1)] c by simp
  show "length ?c \<le> nat (totalNodes (graph ff))"
    by (rule distinct_in_range_length [OF d r])
  show "in_range (graph ff) node" using r c(1,3) last_in_set by metis
qed

lemma dfs_inv_start:
  "wf_FF ff \<Longrightarrow> in_range (graph ff) source \<Longrightarrow> dfs_inv ff source source [] False"
  by (simp add: dfs_inv_def search_chain_def)

lemma dfs_inv_advance:
  assumes "dfs_inv ff source node path bt" "admissible ff node nb"
  shows "dfs_inv ff source nb (search_chain node path bt) False"
  using assms
  by (simp add: dfs_inv_def search_chain_def [of nb] successively_append_iff)

lemma admissible_clear:
  assumes "wf_FF ff" "0 \<le> w"
  shows "admissible (clearMaxFlowAtNode ff w) u v \<longleftrightarrow> admissible ff u v \<and> v \<noteq> w"
  using clearMaxFlowAtNode_entry [OF assms(1) _ _ assms(2), of u v]
  by (auto simp: admissible_def split: if_splits)

lemma dfs_inv_dead_end:
  assumes inv: "dfs_inv ff source node path bt" and ne: "node \<noteq> source"
  shows "butlast (search_chain node path bt) \<noteq> []"
    and "node \<notin> set (butlast (search_chain node path bt))"
    and "admissible ff (last (butlast (search_chain node path bt))) node"
    and "dfs_inv (clearMaxFlowAtNode ff node) source
           (last (butlast (search_chain node path bt))) (butlast (search_chain node path bt)) True"
proof -
  let ?c = "search_chain node path bt"
  let ?b = "butlast ?c"
  from inv have c: "?c \<noteq> []" "hd ?c = source" "last ?c = node"
    "successively (admissible ff) ?c" "in_range (graph ff) source" "wf_FF ff"
    by (simp_all add: dfs_inv_def)
  have split: "?c = ?b @ [node]" using c(1,3) by (metis append_butlast_last_id)
  show b: "?b \<noteq> []"
  proof
    assume "?b = []"
    with split have "?c = [node]" by simp
    with c(2) ne show False by simp
  qed
  have d: "distinct (?b @ [node])" using dfs_inv_chain_facts(1) [OF inv] split by simp
  then show nin: "node \<notin> set ?b" by simp
  have s: "successively (admissible ff) (?b @ [node])" using c(4) split by simp
  then show adm: "admissible ff (last ?b) node"
    using b by (simp add: successively_append_iff)
  from s have sb: "successively (admissible ff) ?b" by (simp add: successively_append_iff)
  have hdb: "hd ?b = source" using split b c(2) by (metis hd_append2)
  have node0: "0 \<le> node" using dfs_inv_chain_facts(4) [OF inv] by (simp add: in_range_def)
  have "successively (admissible (clearMaxFlowAtNode ff node)) ?b"
  proof (rule successively_mono [OF sb])
    fix x y assume "x \<in> set ?b" "y \<in> set ?b" "admissible ff x y"
    with nin show "admissible (clearMaxFlowAtNode ff node) x y"
      by (auto simp: admissible_clear [OF c(6) node0])
  qed
  with b hdb c show "dfs_inv (clearMaxFlowAtNode ff node) source (last ?b) ?b True"
    by (simp add: dfs_inv_def search_chain_def [of _ _ True] clearMaxFlowAtNode_wf)
qed

lemma finite_live_cols: "finite (live_cols ff)"
  by (rule finite_subset [OF _ finite_in_range [of "graph ff"]]) (auto simp: live_cols_def)

lemma live_cols_clear:
  assumes wf: "wf_FF ff" and w: "in_range (graph ff) w" and adm: "admissible ff u w"
  shows "card (live_cols (clearMaxFlowAtNode ff w)) < card (live_cols ff)"
proof (rule psubset_card_mono [OF finite_live_cols])
  have w0: "0 \<le> w" using w by (simp add: in_range_def)
  have "live_cols (clearMaxFlowAtNode ff w) \<subseteq> live_cols ff"
    unfolding live_cols_def
    using clearMaxFlowAtNode_entry [OF wf _ _ w0] by (auto split: if_splits)
  moreover have "w \<in> live_cols ff"
    using adm by (auto simp: live_cols_def admissible_def)
  moreover have "w \<notin> live_cols (clearMaxFlowAtNode ff w)"
    unfolding live_cols_def
    using clearMaxFlowAtNode_entry [OF wf _ w w0] by auto
  ultimately show "live_cols (clearMaxFlowAtNode ff w) \<subset> live_cols ff" by blast
qed

lemma good_clear:
  assumes wf: "wf_FF ff" and w: "in_range (graph ff) w" and na: "no_admissible ff w"
    and ws: "w \<noteq> sink" and g: "good ff sink v"
  shows "good (clearMaxFlowAtNode ff w) sink v"
proof -
  from g obtain xs where xs: "xs \<noteq> []" "hd xs = v" "last xs = sink"
    "successively (admissible ff) xs" by (auto simp: good_def)
  have w0: "0 \<le> w" using w by (simp add: in_range_def)
  have nin: "w \<notin> set xs"
  proof
    assume "w \<in> set xs"
    then obtain ys zs where split: "xs = ys @ w # zs" by (meson split_list)
    with xs(3) ws have "zs \<noteq> []" by auto
    with xs(4) split have "admissible ff w (hd zs)"
      by (simp add: successively_append_iff successively_Cons)
    with na w show False by (simp add: no_admissible_iff)
  qed
  have "successively (admissible (clearMaxFlowAtNode ff w)) xs"
  proof (rule successively_mono [OF xs(4)])
    fix x y assume "x \<in> set xs" "y \<in> set xs" "admissible ff x y"
    with nin show "admissible (clearMaxFlowAtNode ff w) x y"
      by (auto simp: admissible_clear [OF wf w0])
  qed
  with xs show ?thesis by (auto simp: good_def)
qed

lemma dfs_post_clear:
  assumes wf: "wf_FF ff" and w: "in_range (graph ff) w" and na: "no_admissible ff w"
    and ws: "w \<noteq> sink"
    and post: "dfs_post (clearMaxFlowAtNode ff w) source sink found path' ff'"
  shows "dfs_post ff source sink found path' ff'"
proof -
  have w0: "0 \<le> w" using w by (simp add: in_range_def)
  have mono: "maxFlow ff' ! nat u ! nat v = maxFlow ff ! nat u ! nat v \<or>
        maxFlow ff' ! nat u ! nat v = 0"
    if "in_range (graph ff) u" "in_range (graph ff) v" for u v
  proof -
    from post that have "maxFlow ff' ! nat u ! nat v = maxFlow (clearMaxFlowAtNode ff w) ! nat u ! nat v \<or>
        maxFlow ff' ! nat u ! nat v = 0"
      by (simp add: dfs_post_def)
    then show ?thesis
      using clearMaxFlowAtNode_entry [OF wf that w0] by (auto split: if_splits)
  qed
  have "good ff' sink v" if "good ff sink v" for v
    using post good_clear [OF wf w na ws that] by (simp add: dfs_post_def)
  with mono post show ?thesis by (simp add: dfs_post_def)
qed

lemma findAugmentingPath_loop_total:
  assumes "dfs_inv ff source node path bt" "in_range (graph ff) sink"
    "sink \<notin> set (search_chain node path bt)"
  shows "\<exists>found path' ff'.
           findAugmentingPath_loop ff node path bt source sink = Some (found, path', ff') \<and>
           dfs_post ff source sink found path' ff'"
  using assms
proof (induction "2 * card (live_cols ff) + nat (totalNodes (graph ff))
                   - length (search_chain node path bt)"
       arbitrary: ff node path bt rule: less_induct)
  case less
  let ?c = "search_chain node path bt"
  note inv = less.prems(1)
  from inv have c: "?c \<noteq> []" "hd ?c = source" "last ?c = node"
    "successively (admissible ff) ?c" "in_range (graph ff) source" "wf_FF ff"
    by (simp_all add: dfs_inv_def)
  note facts = dfs_inv_chain_facts [OF inv]
  have ns: "node \<noteq> sink" using less.prems(3) c(1,3) last_in_set by metis
  have refl_post: "dfs_post ff source sink True p ff"
    if "p \<noteq> []" "hd p = source" "last p = sink" "successively (admissible ff) p" for p
    using that c(6) by (simp add: dfs_post_def)
  show ?case
  proof (cases "find (\<lambda>neighbor. depth ff ! nat node + 1 = depth ff ! nat neighbor \<and>
                       maxFlow ff ! nat node ! nat neighbor > 0)
                (findAdjacentNodes (graph ff) node)")
    case (Some nb)
    have adm: "admissible ff node nb" by (rule find_admissible [OF Some facts(4)])
    have step: "findNextNodeInPath ff node path bt source = (True, nb, ?c, False, ff)"
      by (rule findNext_advance [OF Some])
    have inv': "dfs_inv ff source nb ?c False" by (rule dfs_inv_advance [OF inv adm])
    have c': "search_chain nb ?c False = ?c @ [nb]" by (simp add: search_chain_def)
    show ?thesis
    proof (cases "nb = sink")
      case True
      have "findAugmentingPath_loop ff node path bt source sink = Some (True, ?c @ [sink], ff)"
        using ns step True by (subst findAugmentingPath_loop.simps) simp
      moreover have "successively (admissible ff) (?c @ [nb])" "hd (?c @ [nb]) = source"
        using inv' unfolding dfs_inv_def c' by blast+
      then have "dfs_post ff source sink True (?c @ [sink]) ff"
        unfolding True by (intro refl_post) simp_all
      ultimately show ?thesis by blast
    next
      case False
      have unfold: "findAugmentingPath_loop ff node path bt source sink =
                    findAugmentingPath_loop ff nb ?c False source sink"
        using ns step False by (subst findAugmentingPath_loop.simps) simp
      have len: "length (search_chain nb ?c False) \<le> nat (totalNodes (graph ff))"
        by (rule dfs_inv_chain_facts(3) [OF inv'])
      have "2 * card (live_cols ff) + nat (totalNodes (graph ff))
              - length (search_chain nb ?c False)
            < 2 * card (live_cols ff) + nat (totalNodes (graph ff)) - length ?c"
        using len by (simp add: c')
      moreover have "sink \<notin> set (search_chain nb ?c False)"
        using less.prems(3) False by (simp add: c')
      ultimately show ?thesis
        using less.hyps [OF _ inv' less.prems(2)] unfold by simp
    qed
  next
    case None
    then have na: "no_admissible ff node" by (simp add: no_admissible_def)
    show ?thesis
    proof (cases "node = source")
      case True
      have step: "findNextNodeInPath ff node path bt source = (False, node, ?c, False, ff)"
        by (rule findNext_source [OF na True])
      have "findAugmentingPath_loop ff node path bt source sink = Some (False, ?c, ff)"
        using ns step by (subst findAugmentingPath_loop.simps) simp
      moreover have "dfs_post ff source sink False ?c ff"
        using na True c(6) by (simp add: dfs_post_def)
      ultimately show ?thesis by blast
    next
      case False
      let ?b = "butlast ?c"
      let ?ff = "clearMaxFlowAtNode ff node"
      note de = dfs_inv_dead_end [OF inv False]
      have step: "findNextNodeInPath ff node path bt source = (True, last ?b, ?b, True, ?ff)"
        using findNext_dead_end [OF na False, of path bt] de(1) by simp
      have cb: "search_chain (last ?b) ?b True = ?b" by (simp add: search_chain_def)
      have sub: "set ?b \<subseteq> set ?c" by (meson in_set_butlastD subsetI)
      have nsb: "sink \<notin> set ?b" using less.prems(3) sub by blast
      then have ls: "last ?b \<noteq> sink" using de(1) last_in_set by metis
      have unfold: "findAugmentingPath_loop ff node path bt source sink =
                    findAugmentingPath_loop ?ff (last ?b) ?b True source sink"
        using ns step ls by (subst findAugmentingPath_loop.simps) simp
      have card: "card (live_cols ?ff) < card (live_cols ff)"
        by (rule live_cols_clear [OF c(6) facts(4) de(3)])
      have "2 * card (live_cols ?ff) + nat (totalNodes (graph ?ff))
              - length (search_chain (last ?b) ?b True)
            < 2 * card (live_cols ff) + nat (totalNodes (graph ff)) - length ?c"
        using card facts(3) c(1) by (simp add: cb)
      moreover have "in_range (graph ?ff) sink" using less.prems(2) by simp
      moreover have "sink \<notin> set (search_chain (last ?b) ?b True)" using nsb by (simp add: cb)
      ultimately obtain found path' ff' where
        r: "findAugmentingPath_loop ?ff (last ?b) ?b True source sink = Some (found, path', ff')"
           "dfs_post ?ff source sink found path' ff'"
        using less.hyps [OF _ de(4)] by blast
      have "dfs_post ff source sink found path' ff'"
        by (rule dfs_post_clear [OF c(6) facts(4) na ns r(2)])
      with r(1) unfold show ?thesis by simp
    qed
  qed
qed

text \<open>
  The effect of \<open>updateResidualGraph\<close> on every entry, in one formula: the entry loses one
  for each occurrence of its index pair and gains one for each occurrence of the mirrored
  pair, modulo the wrap-around of \<open>int\<close>.
\<close>

lemma updateResidualGraph_count:
  assumes wf: "wf_Graph (graph ff)"
    and ru: "in_range (graph ff) u" and rv: "in_range (graph ff) v"
  obtains g' where
    "updateResidualGraph ff u v = (Inr (), ff\<lparr>graph := g'\<rparr>)"
    "wf_Graph g'" "nodes g' = nodes (graph ff)" "totalNodes g' = totalNodes (graph ff)"
    "\<And>i j. in_range (graph ff) i \<Longrightarrow> in_range (graph ff) j \<Longrightarrow>
        capacity g' i j = wrap_int (capacity (graph ff) i j - int (count_list [(u, v)] (i, j))
                                                            + int (count_list [(u, v)] (j, i)))"
proof -
  from updateResidualGraph_in_range [OF wf ru rv] obtain g' where g':
    "updateResidualGraph ff u v = (Inr (), ff\<lparr>graph := g'\<rparr>)"
    "wf_Graph g'" "nodes g' = nodes (graph ff)" "totalNodes g' = totalNodes (graph ff)"
    "u \<noteq> v \<Longrightarrow> capacity g' u v = wrap_int (capacity (graph ff) u v - 1)"
    "u \<noteq> v \<Longrightarrow> capacity g' v u = wrap_int (capacity (graph ff) v u + 1)"
    "u = v \<Longrightarrow> capacity g' u v = capacity (graph ff) u v"
    "\<And>i j. in_range (graph ff) i \<Longrightarrow> in_range (graph ff) j \<Longrightarrow>
        (i, j) \<noteq> (u, v) \<Longrightarrow> (i, j) \<noteq> (v, u) \<Longrightarrow> capacity g' i j = capacity (graph ff) i j"
    by blast
  have cnt: "capacity g' i j = wrap_int (capacity (graph ff) i j - int (count_list [(u, v)] (i, j))
                                                  + int (count_list [(u, v)] (j, i)))"
    if ri: "in_range (graph ff) i" and rj: "in_range (graph ff) j" for i j
  proof -
    define p where "p = (i, j)"
    define q where "q = (j, i)"
    define e where "e = (u, v)"
    define e' where "e' = (v, u)"
    have sw: "p = e \<longleftrightarrow> q = e'" "p = e' \<longleftrightarrow> q = e"
      unfolding p_def q_def e_def e'_def by blast+
    have ee: "e = e' \<longleftrightarrow> u = v" unfolding e_def e'_def by blast
    have c1: "int (count_list [e] p) = (if p = e then 1 else 0)"
      and c2: "int (count_list [e] q) = (if p = e' then 1 else 0)"
      using sw by auto
    have id: "wrap_int (capacity (graph ff) i j) = capacity (graph ff) i j"
      by (rule wrap_int_id) (rule wf_Graph_int [OF wf ri rj])+
    consider (diag) "u = v" "p = e" | (fwd) "u \<noteq> v" "p = e" | (bwd) "u \<noteq> v" "p = e'"
      | (none) "p \<noteq> e" "p \<noteq> e'" using ee by blast
    then have "capacity g' i j = wrap_int (capacity (graph ff) i j - int (count_list [e] p)
                                                  + int (count_list [e] q))"
    proof cases
      case diag
      then have "i = u" "j = v" "p = e'" using ee by (simp_all add: p_def e_def)
      with diag g'(7) id show ?thesis unfolding c1 c2 by simp
    next
      case fwd
      then have "i = u" "j = v" "p \<noteq> e'" using ee by (simp_all add: p_def e_def)
      with fwd g'(5) show ?thesis unfolding c1 c2 by simp
    next
      case bwd
      then have "i = v" "j = u" "p \<noteq> e" using ee by (simp_all add: p_def e'_def)
      with bwd g'(6) show ?thesis unfolding c1 c2 by simp
    next
      case none
      then have "(i, j) \<noteq> (u, v)" "(i, j) \<noteq> (v, u)" by (simp_all add: p_def e_def e'_def)
      from g'(8) [OF ri rj this] none id show ?thesis unfolding c1 c2 by simp
    qed
    then show ?thesis by (simp only: p_def q_def e_def)
  qed
  show thesis by (rule that [OF g'(1-4) cnt])
qed

lemma update_loop_effect:
  assumes "wf_Graph (graph ff)" "\<forall>v \<in> set xs. in_range (graph ff) v"
  shows "\<exists>g'. update_loop ff xs = (Inr (), ff\<lparr>graph := g'\<rparr>) \<and>
              wf_Graph g' \<and> nodes g' = nodes (graph ff) \<and> totalNodes g' = totalNodes (graph ff) \<and>
              (\<forall>i j. in_range (graph ff) i \<and> in_range (graph ff) j \<longrightarrow>
                 capacity g' i j =
                   wrap_int (capacity (graph ff) i j - int (count_list (edges_of xs) (i, j))
                                                     + int (count_list (edges_of xs) (j, i))))"
  using assms
proof (induction xs arbitrary: ff rule: induct_list012)
  case 1
  have "wrap_int (capacity (graph ff) i j) = capacity (graph ff) i j"
    if "in_range (graph ff) i" "in_range (graph ff) j" for i j
    by (rule wrap_int_id) (rule wf_Graph_int [OF "1.prems"(1) that])+
  with 1 show ?case by (intro exI [of _ "graph ff"]) simp
next
  case (2 x)
  have "wrap_int (capacity (graph ff) i j) = capacity (graph ff) i j"
    if "in_range (graph ff) i" "in_range (graph ff) j" for i j
    by (rule wrap_int_id) (rule wf_Graph_int [OF "2.prems"(1) that])+
  with 2 show ?case by (intro exI [of _ "graph ff"]) simp
next
  case (3 u v rest)
  from 3 have ru: "in_range (graph ff) u" and rv: "in_range (graph ff) v" by simp_all
  from updateResidualGraph_count [OF "3.prems"(1) ru rv] obtain g1 where g1:
    "updateResidualGraph ff u v = (Inr (), ff\<lparr>graph := g1\<rparr>)"
    "wf_Graph g1" "nodes g1 = nodes (graph ff)" "totalNodes g1 = totalNodes (graph ff)"
    "\<And>i j. in_range (graph ff) i \<Longrightarrow> in_range (graph ff) j \<Longrightarrow>
        capacity g1 i j = wrap_int (capacity (graph ff) i j - int (count_list [(u, v)] (i, j))
                                                  + int (count_list [(u, v)] (j, i)))"
    by blast
  let ?ff1 = "ff\<lparr>graph := g1\<rparr>"
  have r1: "in_range g1 x \<longleftrightarrow> in_range (graph ff) x" for x
    by (simp add: in_range_def g1(4))
  have "wf_Graph (graph ?ff1)" "\<forall>x \<in> set (v # rest). in_range (graph ?ff1) x"
    using g1(2) "3.prems"(2) by (simp_all add: r1)
  from "3.IH"(2) [OF this] obtain g' where g':
    "update_loop ?ff1 (v # rest) = (Inr (), ?ff1\<lparr>graph := g'\<rparr>)"
    "wf_Graph g'" "nodes g' = nodes g1" "totalNodes g' = totalNodes g1"
    "\<forall>i j. in_range g1 i \<and> in_range g1 j \<longrightarrow>
        capacity g' i j = wrap_int (capacity g1 i j - int (count_list (edges_of (v # rest)) (i, j))
                                          + int (count_list (edges_of (v # rest)) (j, i)))"
    by auto
  have res: "update_loop ff (u # v # rest) = (Inr (), ff\<lparr>graph := g'\<rparr>)"
    using g1(1) g'(1) by simp
  have cap: "capacity g' i j = wrap_int (capacity (graph ff) i j
                 - int (count_list (edges_of (u # v # rest)) (i, j))
                 + int (count_list (edges_of (u # v # rest)) (j, i)))"
    if "in_range (graph ff) i" "in_range (graph ff) j" for i j
  proof -
    define A where "A = capacity (graph ff) i j - int (count_list [(u, v)] (i, j))
                                                  + int (count_list [(u, v)] (j, i))"
    define B where "B = int (count_list (edges_of (v # rest)) (j, i))
                        - int (count_list (edges_of (v # rest)) (i, j))"
    have "capacity g1 i j - int (count_list (edges_of (v # rest)) (i, j))
                          + int (count_list (edges_of (v # rest)) (j, i)) = capacity g1 i j + B"
      unfolding B_def by simp
    moreover have "capacity g' i j =
        wrap_int (capacity g1 i j - int (count_list (edges_of (v # rest)) (i, j))
                                  + int (count_list (edges_of (v # rest)) (j, i)))"
      using g'(5) that by (simp add: r1)
    ultimately have "capacity g' i j = wrap_int (capacity g1 i j + B)" by (simp only:)
    also have "\<dots> = wrap_int (wrap_int A + B)"
      unfolding g1(5) [OF that] A_def ..
    also have "\<dots> = wrap_int (A + B)" by (rule wrap_int_add)
    finally have a: "capacity g' i j = wrap_int (A + B)" .
    have b: "count_list (edges_of (u # v # rest)) p =
             count_list [(u, v)] p + count_list (edges_of (v # rest)) p" for p
      by simp
    have "A + B = capacity (graph ff) i j
                 - int (count_list (edges_of (u # v # rest)) (i, j))
                 + int (count_list (edges_of (u # v # rest)) (j, i))"
      unfolding A_def B_def b by simp
    with a show ?thesis by simp
  qed
  show ?case
    using res g'(2,3,4) g1(3,4) cap by (intro exI [of _ g']) simp
qed

lemma in_range_nat: "in_range g v \<Longrightarrow> nat v < nat (totalNodes g)"
  by (auto simp: in_range_def)

lemma in_range_nat_eq: "in_range g u \<Longrightarrow> in_range g v \<Longrightarrow> nat u = nat v \<longleftrightarrow> u = v"
  by (auto simp: in_range_def)

text \<open>One neighbour that has no depth yet: the state after the assignment.\<close>

lemma tree_ok_assign:
  assumes t: "tree_ok g source dep"
    and cur: "in_range g cur" "dep ! nat cur \<noteq> -1"
    and x: "in_range g x" "capacity g cur x > 0" "dep ! nat x = -1"
  shows "tree_ok g source (dep[nat x := dep ! nat cur + 1])"
    and "\<forall>v. in_range g v \<and> dep ! nat v \<noteq> -1 \<longrightarrow> (dep[nat x := dep ! nat cur + 1]) ! nat v = dep ! nat v"
    and "\<forall>v. in_range g v \<longrightarrow> ((dep[nat x := dep ! nat cur + 1]) ! nat v \<noteq> -1 \<longleftrightarrow> dep ! nat v \<noteq> -1 \<or> v = x)"
proof -
  let ?d = "dep[nat x := dep ! nat cur + 1]"
  from t have len: "length dep = nat (totalNodes g)" and src: "in_range g source" "dep ! nat source = 0"
    and ge: "\<And>v. in_range g v \<Longrightarrow> dep ! nat v \<ge> -1"
    and tr: "\<And>v. in_range g v \<Longrightarrow> dep ! nat v \<noteq> -1 \<Longrightarrow> v \<noteq> source \<Longrightarrow>
          \<exists>u. in_range g u \<and> dep ! nat u \<noteq> -1 \<and> capacity g u v > 0 \<and> dep ! nat v = dep ! nat u + 1"
    unfolding tree_ok_def by blast+
  have xl: "nat x < length dep" using in_range_nat [OF x(1)] len by simp
  have at_x: "?d ! nat x = dep ! nat cur + 1" using xl by simp
  have other: "?d ! nat v = dep ! nat v" if "in_range g v" "v \<noteq> x" for v
  proof -
    have "nat x \<noteq> nat v" using that x(1) by (simp add: in_range_nat_eq)
    then show ?thesis by simp
  qed
  have old: "?d ! nat v = dep ! nat v" if "in_range g v" "dep ! nat v \<noteq> -1" for v
    using other [OF that(1)] that(2) x(3) by blast
  have curge: "dep ! nat cur \<ge> 0" using ge [OF cur(1)] cur(2) by linarith
  show "\<forall>v. in_range g v \<and> dep ! nat v \<noteq> -1 \<longrightarrow> ?d ! nat v = dep ! nat v"
    using old by blast
  show disc: "\<forall>v. in_range g v \<longrightarrow> (?d ! nat v \<noteq> -1 \<longleftrightarrow> dep ! nat v \<noteq> -1 \<or> v = x)"
  proof (intro allI impI)
    fix v assume v: "in_range g v"
    show "?d ! nat v \<noteq> -1 \<longleftrightarrow> dep ! nat v \<noteq> -1 \<or> v = x"
    proof (cases "v = x")
      case True
      then show ?thesis using at_x curge by simp
    next
      case False
      then show ?thesis using other [OF v False] by simp
    qed
  qed
  show "tree_ok g source ?d"
    unfolding tree_ok_def
  proof (intro conjI allI impI)
    show "length ?d = nat (totalNodes g)" using len by simp
    show "in_range g source" by (rule src)
    show "?d ! nat source = 0" using old [OF src(1)] src(2) by simp
  next
    fix v assume v: "in_range g v"
    show "- 1 \<le> ?d ! nat v"
    proof (cases "v = x")
      case True
      then show ?thesis using at_x curge by simp
    next
      case False
      then show ?thesis using other [OF v False] ge [OF v] by simp
    qed
  next
    fix v assume a: "in_range g v \<and> ?d ! nat v \<noteq> - 1 \<and> v \<noteq> source"
    then have v: "in_range g v" and vs: "v \<noteq> source" and dv: "?d ! nat v \<noteq> - 1" by blast+
    show "\<exists>u. in_range g u \<and> ?d ! nat u \<noteq> - 1 \<and> 0 < capacity g u v \<and> ?d ! nat v = ?d ! nat u + 1"
    proof (cases "v = x")
      case True
      have "?d ! nat cur = dep ! nat cur" by (rule old [OF cur])
      then show ?thesis using cur x(2) at_x True by (intro exI [of _ cur]) simp
    next
      case False
      then have dv': "dep ! nat v \<noteq> -1" using other [OF v False] dv by simp
      from tr [OF v dv' vs] obtain u where u: "in_range g u" "dep ! nat u \<noteq> -1"
        "capacity g u v > 0" "dep ! nat v = dep ! nat u + 1" by blast
      have "?d ! nat u = dep ! nat u" by (rule old [OF u(1,2)])
      then show ?thesis using u other [OF v False] by (intro exI [of _ u]) simp
    qed
  qed
qed

lemma queue_ok_push:
  assumes qk: "queue_ok g dep q back"
    and x: "in_range g x" "dep ! nat x = -1"
    and d: "\<forall>v. in_range g v \<longrightarrow> (dep' ! nat v \<noteq> -1 \<longleftrightarrow> dep ! nat v \<noteq> -1 \<or> v = x)"
  shows "queue_ok g dep' (q[back := x]) (Suc back)"
    and "take back (q[back := x]) = take back q"
proof -
  from qk have len: "length q = nat (totalNodes g)" and bn: "back \<le> nat (totalNodes g)"
    and rng: "\<And>k. k < back \<Longrightarrow> in_range g (q ! k)" and dist: "distinct (take back q)"
    and disc: "\<And>v. in_range g v \<Longrightarrow> (dep ! nat v \<noteq> -1 \<longleftrightarrow> v \<in> set (take back q))"
    unfolding queue_ok_def by blast+
  have xn: "x \<notin> set (take back q)" using disc [OF x(1)] x(2) by simp
  have rq: "\<forall>v \<in> set (take back q). in_range g v"
    using rng bn len by (auto simp: in_set_conv_nth)
  have "distinct (x # take back q)" using dist xn by simp
  moreover have "\<forall>v \<in> set (x # take back q). in_range g v" using rq x(1) by simp
  ultimately have "length (x # take back q) \<le> nat (totalNodes g)"
    by (rule distinct_in_range_length)
  then have lt: "back < nat (totalNodes g)" using bn len by simp
  show tk: "take back (q[back := x]) = take back q" by simp
  have tk': "take (Suc back) (q[back := x]) = take back q @ [x]"
    using lt len by (simp add: take_Suc_conv_app_nth)
  show "queue_ok g dep' (q[back := x]) (Suc back)"
    unfolding queue_ok_def
  proof (intro conjI allI impI)
    show "length (q[back := x]) = nat (totalNodes g)" using len by simp
    show "Suc back \<le> nat (totalNodes g)" using lt by simp
    show "distinct (take (Suc back) (q[back := x]))" unfolding tk' using dist xn by simp
  next
    fix k assume "k < Suc back"
    then show "in_range g (q[back := x] ! k)"
      using rng x(1) lt len by (cases "k = back") simp_all
  next
    fix v assume v: "in_range g v"
    show "dep' ! nat v \<noteq> - 1 \<longleftrightarrow> v \<in> set (take (Suc back) (q[back := x]))"
      unfolding tk' using d v disc [OF v] by auto
  qed
qed

lemma levelGraph_visit_inv:
  assumes "tree_ok g source dep" "queue_ok g dep q bk" "in_range g cur" "dep ! nat cur \<noteq> -1"
    "\<forall>x \<in> set xs. in_range g x \<and> capacity g cur x > 0"
    "in_range g sink" "source \<noteq> sink \<longrightarrow> dep ! nat sink = -1"
  shows "\<exists>found dep' q' bk'.
           levelGraph_visit g sink cur xs dep q bk = (found, dep', q', bk') \<and>
           visit_post g source sink xs dep q bk found dep' q' bk'"
  using assms
proof (induction xs arbitrary: dep q bk)
  case Nil
  then show ?case by (auto simp: visit_post_def)
next
  case (Cons x rest)
  note t = Cons.prems(1) and qk = Cons.prems(2) and cur = Cons.prems(3,4)
    and snk = Cons.prems(6,7)
  from Cons.prems(5) have x: "in_range g x" "capacity g cur x > 0"
    and rest: "\<forall>y \<in> set rest. in_range g y \<and> capacity g cur y > 0" by simp_all
  from t have src0: "dep ! nat source = 0" and len: "length dep = nat (totalNodes g)"
    unfolding tree_ok_def by blast+
  show ?case
  proof (cases "dep ! nat x = -1")
    case False
    then have unfold: "levelGraph_visit g sink cur (x # rest) dep q bk =
                       levelGraph_visit g sink cur rest dep q bk"
      by simp
    from Cons.IH [OF t qk cur rest snk] obtain found dep' q' bk' where
      r: "levelGraph_visit g sink cur rest dep q bk = (found, dep', q', bk')"
         "visit_post g source sink rest dep q bk found dep' q' bk'"
      by blast
    from r(2) have "dep' ! nat x = dep ! nat x" using x(1) False unfolding visit_post_def by blast
    with r(2) False have "visit_post g source sink (x # rest) dep q bk found dep' q' bk'"
      unfolding visit_post_def by simp
    with r(1) unfold show ?thesis by simp
  next
    case True
    let ?d = "dep[nat x := dep ! nat cur + 1]"
    note ta = tree_ok_assign [OF t cur x True]
    have dx: "?d ! nat x \<noteq> -1" using ta(3) x(1) by blast
    show ?thesis
    proof (cases "x = sink")
      case xs: True
      have res: "levelGraph_visit g sink cur (x # rest) dep q bk = (True, ?d, q, bk)"
        using True x(2) xs by (simp add: getAdjacencyMatrix_def)
      have ne: "source \<noteq> sink" using src0 True xs by auto
      have "?d[nat sink := -1] = dep" using True xs list_update_id [of dep "nat sink"] by simp
      then have "visit_post g source sink (x # rest) dep q bk True ?d q bk"
        unfolding visit_post_def using ta(1,2) ne dx xs qk by simp
      with res show ?thesis by blast
    next
      case xs: False
      let ?q = "q[bk := x]"
      note qp = queue_ok_push [OF qk x(1) True ta(3)]
      have unfold: "levelGraph_visit g sink cur (x # rest) dep q bk =
                       levelGraph_visit g sink cur rest ?d ?q (Suc bk)"
        using True x(2) xs by (simp add: getAdjacencyMatrix_def)
      have cur': "?d ! nat cur \<noteq> -1" using ta(2) cur by simp
      have snk': "source \<noteq> sink \<longrightarrow> ?d ! nat sink = -1"
        using ta(3) snk xs by blast
      from Cons.IH [OF ta(1) qp(1) cur(1) cur' rest snk(1) snk'] obtain found dep' q' bk' where
        r: "levelGraph_visit g sink cur rest ?d ?q (Suc bk) = (found, dep', q', bk')"
           "visit_post g source sink rest ?d ?q (Suc bk) found dep' q' bk'"
        by blast
      from r(2) have p: "tree_ok g source dep'"
        "\<And>v. in_range g v \<Longrightarrow> ?d ! nat v \<noteq> -1 \<Longrightarrow> dep' ! nat v = ?d ! nat v"
        "Suc bk \<le> bk'" "take (Suc bk) q' = take (Suc bk) ?q"
        "found \<Longrightarrow> source \<noteq> sink \<and> dep' ! nat sink \<noteq> -1 \<and> queue_ok g (dep'[nat sink := -1]) q' bk'"
        "\<not> found \<Longrightarrow> queue_ok g dep' q' bk' \<and> (\<forall>x \<in> set rest. dep' ! nat x \<noteq> -1) \<and>
                  (source \<noteq> sink \<longrightarrow> dep' ! nat sink = -1)"
        unfolding visit_post_def by blast+
      have old: "dep' ! nat v = dep ! nat v" if "in_range g v" "dep ! nat v \<noteq> -1" for v
      proof -
        have "?d ! nat v = dep ! nat v" using ta(2) that by blast
        then show ?thesis using p(2) [OF that(1)] that(2) by simp
      qed
      have "take bk (take (Suc bk) q') = take bk (take (Suc bk) ?q)"
        using p(4) by simp
      then have tk: "take bk q' = take bk q" using qp(2) by (simp add: min_def)
      have dx': "dep' ! nat x \<noteq> -1" using p(2) [OF x(1) dx] dx by simp
      have "visit_post g source sink (x # rest) dep q bk found dep' q' bk'"
        unfolding visit_post_def
        using p(1,3,5,6) old tk dx' by auto
      with r(1) unfold show ?thesis by simp
    qed
  qed
qed

lemma levelGraph_loop_total:
  assumes "tree_ok g source dep" "queue_ok g dep q bk" "closed_upto g dep q front" "front \<le> bk"
    "in_range g sink" "source \<noteq> sink \<longrightarrow> dep ! nat sink = -1"
  shows "\<exists>found dep' q' front' bk'.
           levelGraph_loop g sink dep q front bk = Some (found, dep', q', front', bk') \<and>
           loop_post g source sink found dep' q' front' bk'"
  using assms
proof (induction "nat (totalNodes g) - front" arbitrary: dep q front bk rule: less_induct)
  case less
  note t = less.prems(1) and qk = less.prems(2) and cl = less.prems(3) and fb = less.prems(4)
    and snk = less.prems(5,6)
  show ?case
  proof (cases "front < bk")
    case False
    then have fb': "front = bk" using fb by simp
    have "levelGraph_loop g sink dep q front bk = Some (False, dep, q, front, bk)"
      using False by (subst levelGraph_loop.simps) simp
    moreover have "loop_post g source sink False dep q front bk"
      unfolding loop_post_def using t qk cl snk fb' by simp
    ultimately show ?thesis by blast
  next
    case True
    let ?cur = "q ! front"
    let ?adj = "findAdjacentNodes g ?cur"
    from qk have len: "length q = nat (totalNodes g)" and bn: "bk \<le> nat (totalNodes g)"
      and rng: "\<And>k. k < bk \<Longrightarrow> in_range g (q ! k)"
      and disc: "\<And>v. in_range g v \<Longrightarrow> (dep ! nat v \<noteq> -1 \<longleftrightarrow> v \<in> set (take bk q))"
      unfolding queue_ok_def by blast+
    have cur: "in_range g ?cur" by (rule rng [OF True])
    have "?cur \<in> set (take bk q)"
      using True bn len by (auto simp: in_set_conv_nth intro!: exI [of _ front])
    then have dcur: "dep ! nat ?cur \<noteq> -1" using disc [OF cur] by simp
    have adj: "\<forall>x \<in> set ?adj. in_range g x \<and> capacity g ?cur x > 0"
      by (auto simp: findAdjacentNodes_def in_range_def)
    from levelGraph_visit_inv [OF t qk cur dcur adj snk] obtain found dep' q' bk' where
      r: "levelGraph_visit g sink ?cur ?adj dep q bk = (found, dep', q', bk')"
         "visit_post g source sink ?adj dep q bk found dep' q' bk'"
      by blast
    from r(2) have p: "tree_ok g source dep'"
      "\<And>v. in_range g v \<Longrightarrow> dep ! nat v \<noteq> -1 \<Longrightarrow> dep' ! nat v = dep ! nat v"
      "bk \<le> bk'" "take bk q' = take bk q"
      "found \<Longrightarrow> source \<noteq> sink \<and> dep' ! nat sink \<noteq> -1 \<and> queue_ok g (dep'[nat sink := -1]) q' bk'"
      "\<not> found \<Longrightarrow> queue_ok g dep' q' bk' \<and> (\<forall>x \<in> set ?adj. dep' ! nat x \<noteq> -1) \<and>
                  (source \<noteq> sink \<longrightarrow> dep' ! nat sink = -1)"
      unfolding visit_post_def by blast+
    show ?thesis
    proof (cases found)
      case True
      have "levelGraph_loop g sink dep q front bk = Some (True, dep', q', front + 1, bk')"
        using \<open>front < bk\<close> r(1) True by (subst levelGraph_loop.simps) (simp add: Let_def)
      moreover have "loop_post g source sink True dep' q' (front + 1) bk'"
        unfolding loop_post_def using p(1,3) p(5) [OF True] \<open>front < bk\<close> by simp
      ultimately show ?thesis by blast
    next
      case False
      have unfold: "levelGraph_loop g sink dep q front bk =
                    levelGraph_loop g sink dep' q' (front + 1) bk'"
        using \<open>front < bk\<close> r(1) False by (subst levelGraph_loop.simps) (simp add: Let_def)
      note pf = p(6) [OF False]
      have same: "q' ! k = q ! k" if "k < bk" for k
      proof -
        have "take bk q' ! k = take bk q ! k" using p(4) by simp
        then show ?thesis using that by simp
      qed
      have cl': "closed_upto g dep' q' (front + 1)"
        unfolding closed_upto_def
      proof (intro allI impI)
        fix k v assume k: "k < front + 1" and v: "in_range g v \<and> 0 < capacity g (q' ! k) v"
        have kb: "k < bk" using k \<open>front < bk\<close> by simp
        show "dep' ! nat v \<noteq> - 1"
        proof (cases "k = front")
          case True
          then have "v \<in> set ?adj" using v same [OF kb]
            by (auto simp: findAdjacentNodes_def in_range_def)
          then show ?thesis using pf by blast
        next
          case False
          then have "k < front" using k by simp
          with cl v same [OF kb] have "dep ! nat v \<noteq> -1" unfolding closed_upto_def by auto
          then show ?thesis using p(2) v by simp
        qed
      qed
      have m: "nat (totalNodes g) - (front + 1) < nat (totalNodes g) - front"
        using \<open>front < bk\<close> bn by simp
      have fb': "front + 1 \<le> bk'" using \<open>front < bk\<close> p(3) by simp
      from less.hyps [OF m p(1) _ cl' fb' snk(1)] pf unfold show ?thesis by simp
    qed
  qed
qed

lemma bfs_initial:
  assumes "in_range g source"
  shows "tree_ok g source ((replicate (nat (totalNodes g)) (-1))[nat source := 0])"
    and "queue_ok g ((replicate (nat (totalNodes g)) (-1))[nat source := 0])
           ((replicate (nat (totalNodes g)) 0)[0 := source]) 1"
    and "closed_upto g ((replicate (nat (totalNodes g)) (-1))[nat source := 0])
           ((replicate (nat (totalNodes g)) 0)[0 := source]) 0"
proof -
  let ?n = "nat (totalNodes g)"
  let ?d = "(replicate ?n (-1::int))[nat source := 0]"
  let ?q = "(replicate ?n (0::int))[0 := source]"
  have sn: "nat source < ?n" by (rule in_range_nat [OF assms])
  have at: "?d ! nat v = (if v = source then 0 else -1)" if "in_range g v" for v
    using in_range_nat [OF that] in_range_nat_eq [OF assms that] sn
    by (auto simp: nth_list_update)
  show "tree_ok g source ?d"
    unfolding tree_ok_def using assms at by auto
  have tk: "take 1 ?q = [source]"
    using sn by (cases ?n) (simp_all add: take_Suc_conv_app_nth)
  show "queue_ok g ?d ?q 1"
    unfolding queue_ok_def tk using assms at sn by auto
  show "closed_upto g ?d ?q 0" by (simp add: closed_upto_def)
qed

lemma levelGraph_run_total:
  assumes "in_range g source" "in_range g sink"
  shows "\<exists>found dep q front bk.
           levelGraph_run g source sink = Some (found, dep, q, front, bk) \<and>
           loop_post g source sink found dep q front bk"
proof -
  note i = bfs_initial [OF assms(1)]
  have s: "source \<noteq> sink \<longrightarrow>
           (replicate (nat (totalNodes g)) (-1))[nat source := 0] ! nat sink = -1"
    using in_range_nat [OF assms(2)] in_range_nat_eq [OF assms] by (auto simp: nth_list_update)
  from levelGraph_loop_total [OF i(1,2,3) _ assms(2) s]
  show ?thesis by (simp add: levelGraph_run_def getNodes_def Let_def)
qed

subsection \<open>What the depths mean\<close>

lemma tree_reachable:
  assumes "tree_ok g source dep" "in_range g v" "dep ! nat v \<noteq> -1"
  shows "reachable g source v"
  using assms(2,3)
proof (induction "nat (dep ! nat v)" arbitrary: v rule: less_induct)
  case less
  show ?case
  proof (cases "v = source")
    case True
    then show ?thesis by (simp add: reachable_def)
  next
    case False
    from assms(1) less.prems False obtain u where u: "in_range g u" "dep ! nat u \<noteq> -1"
      "capacity g u v > 0" "dep ! nat v = dep ! nat u + 1"
      unfolding tree_ok_def by blast
    from assms(1) u(1) have "dep ! nat u \<ge> -1" unfolding tree_ok_def by blast
    with u(2,4) have "nat (dep ! nat u) < nat (dep ! nat v)" by linarith
    from less.hyps [OF this u(1,2)] have "reachable g source u" .
    moreover have "(u, v) \<in> edge_rel g" using u less.prems by (simp add: edge_rel_def)
    ultimately show ?thesis unfolding reachable_def by (rule rtrancl_into_rtrancl)
  qed
qed

lemma tree_chain:
  assumes "tree_ok g source dep" "in_range g v" "dep ! nat v \<noteq> -1"
  shows "\<exists>xs. xs \<noteq> [] \<and> hd xs = source \<and> last xs = v \<and> successively (level_edge g dep) xs"
  using assms(2,3)
proof (induction "nat (dep ! nat v)" arbitrary: v rule: less_induct)
  case less
  show ?case
  proof (cases "v = source")
    case True
    then show ?thesis by (intro exI [of _ "[source]"]) simp
  next
    case False
    from assms(1) less.prems False obtain u where u: "in_range g u" "dep ! nat u \<noteq> -1"
      "capacity g u v > 0" "dep ! nat v = dep ! nat u + 1"
      unfolding tree_ok_def by blast
    from assms(1) u(1) have "dep ! nat u \<ge> -1" unfolding tree_ok_def by blast
    with u(2,4) have "nat (dep ! nat u) < nat (dep ! nat v)" by linarith
    from less.hyps [OF this u(1,2)] obtain xs where xs: "xs \<noteq> []" "hd xs = source" "last xs = u"
      "successively (level_edge g dep) xs" by blast
    have "level_edge g dep u v" using u less.prems by (simp add: level_edge_def)
    with xs have "successively (level_edge g dep) (xs @ [v])"
      by (simp add: successively_append_iff)
    with xs show ?thesis by (intro exI [of _ "xs @ [v]"]) simp
  qed
qed

lemma closed_complete:
  assumes qk: "queue_ok g dep q bk" and cl: "closed_upto g dep q bk"
    and src: "in_range g source" "dep ! nat source \<noteq> -1"
    and r: "reachable g source v"
  shows "in_range g v \<and> dep ! nat v \<noteq> -1"
  using r unfolding reachable_def
proof (induction rule: rtrancl_induct)
  case base
  then show ?case using src by simp
next
  case (step u v)
  then have u: "in_range g u" "dep ! nat u \<noteq> -1" and v: "in_range g v" "capacity g u v > 0"
    by (simp_all add: edge_rel_def)
  from qk u have "u \<in> set (take bk q)" unfolding queue_ok_def by blast
  then obtain k where k: "k < bk" "q ! k = u"
    by (auto simp: in_set_conv_nth)
  with cl v show ?case unfolding closed_upto_def by blast
qed

lemma levelGraph_run_correct:
  assumes "in_range g source" "in_range g sink"
  shows "\<exists>found dep q front bk.
           levelGraph_run g source sink = Some (found, dep, q, front, bk) \<and>
           loop_post g source sink found dep q front bk \<and>
           (found \<longleftrightarrow> source \<noteq> sink \<and> reachable g source sink) \<and>
           (\<forall>v. in_range g v \<and> dep ! nat v \<noteq> -1 \<longrightarrow> reachable g source v) \<and>
           (\<not> found \<longrightarrow> (\<forall>v. reachable g source v \<longrightarrow> in_range g v \<and> dep ! nat v \<noteq> -1))"
proof -
  from levelGraph_run_total [OF assms] obtain found dep q front bk where
    r: "levelGraph_run g source sink = Some (found, dep, q, front, bk)"
       "loop_post g source sink found dep q front bk"
    by blast
  from r(2) have t: "tree_ok g source dep" unfolding loop_post_def by blast
  then have s0: "dep ! nat source \<noteq> -1" unfolding tree_ok_def by simp
  have sound: "\<forall>v. in_range g v \<and> dep ! nat v \<noteq> -1 \<longrightarrow> reachable g source v"
    using tree_reachable [OF t] by blast
  have compl: "in_range g v \<and> dep ! nat v \<noteq> -1" if "\<not> found" "reachable g source v" for v
  proof -
    from r(2) that(1) have "queue_ok g dep q bk" "closed_upto g dep q bk"
      unfolding loop_post_def by blast+
    from closed_complete [OF this assms(1) s0 that(2)] show ?thesis .
  qed
  have iff: "found \<longleftrightarrow> source \<noteq> sink \<and> reachable g source sink"
  proof
    assume found
    with r(2) have "source \<noteq> sink" "dep ! nat sink \<noteq> -1" unfolding loop_post_def by blast+
    with sound assms(2) show "source \<noteq> sink \<and> reachable g source sink" by blast
  next
    assume a: "source \<noteq> sink \<and> reachable g source sink"
    show found
    proof (rule ccontr)
      assume nf: "\<not> found"
      with r(2) a have "dep ! nat sink = -1" unfolding loop_post_def by blast
      with compl [OF nf] a show False by blast
    qed
  qed
  from r sound compl iff show ?thesis by blast
qed

lemma edges_of_absent:
  "a \<notin> set p \<Longrightarrow> count_list (edges_of p) (a, b) = 0 \<and> count_list (edges_of p) (b, a) = 0"
  by (induction p rule: edges_of.induct) auto

lemma edges_of_head:
  assumes "distinct (s # x # rest)"
  shows "count_list (edges_of (s # x # rest)) (s, v) = (if v = x then 1 else 0)"
    and "count_list (edges_of (s # x # rest)) (v, s) = 0"
proof -
  from assms have "s \<notin> set (x # rest)" by simp
  note a = edges_of_absent [OF this]
  have sx: "s \<noteq> x" using assms by simp
  show "count_list (edges_of (s # x # rest)) (s, v) = (if v = x then 1 else 0)"
    using a [of v] by auto
  have "(s, x) \<noteq> (v, s)" using sx by blast
  then show "count_list (edges_of (s # x # rest)) (v, s) = 0"
    using a [of v] by (simp del: prod.inject)
qed

lemma sum_list_decrease_one:
  fixes f f' :: "int \<Rightarrow> nat"
  assumes "distinct xs" "a \<in> set xs" "f a > 0" "f' a = f a - 1" "\<And>x. x \<noteq> a \<Longrightarrow> f' x = f x"
  shows "sum_list (map f' xs) + 1 = sum_list (map f xs)"
  using assms(1,2)
proof (induction xs)
  case Nil
  then show ?case by simp
next
  case (Cons x xs)
  show ?case
  proof (cases "x = a")
    case True
    then have "a \<notin> set xs" using Cons.prems by simp
    then have "map f' xs = map f xs" using assms(5) by (intro map_cong refl) metis
    then have "sum_list (map f' xs) = sum_list (map f xs)" by (rule arg_cong)
    then show ?thesis using True assms(3,4) by simp
  next
    case False
    then have "a \<in> set xs" "distinct xs" using Cons.prems by simp_all
    from Cons.IH [OF this(2,1)] assms(5) [OF False] show ?thesis by simp
  qed
qed

lemma out_cap_step:
  assumes wf: "wf_Graph g" and src: "in_range g source"
    and p: "p \<noteq> []" "hd p = source" "last p = sink" "distinct p" "source \<noteq> sink"
      "successively (\<lambda>a b. capacity g a b > 0) p" "\<forall>v \<in> set p. in_range g v"
    and tn: "totalNodes g' = totalNodes g"
    and cap: "\<forall>i j. in_range g i \<and> in_range g j \<longrightarrow>
             capacity g' i j = wrap_int (capacity g i j - int (count_list (edges_of p) (i, j))
                                                        + int (count_list (edges_of p) (j, i)))"
  shows "out_cap g' source + 1 = out_cap g source"
proof -
  from p(1,2,3,5) obtain x rest where pe: "p = source # x # rest"
    by (cases p; cases "tl p") auto
  have x: "in_range g x" "capacity g source x > 0"
    using p(6,7) unfolding pe by simp_all
  have row: "capacity g' source v = capacity g source v - (if v = x then 1 else 0)"
    if v: "in_range g v" for v
  proof -
    have "capacity g' source v = wrap_int (capacity g source v - (if v = x then 1 else 0))"
      using cap src v edges_of_head [OF p(4) [unfolded pe], of v]
      unfolding pe by simp
    moreover have "wrap_int (capacity g source v - (if v = x then 1 else 0))
                 = capacity g source v - (if v = x then 1 else 0)"
      by (rule wrap_int_id)
         (use wf_Graph_int [OF wf src v] x(2) in \<open>auto simp: INT_MIN_def\<close>)
    ultimately show ?thesis by simp
  qed
  let ?f = "\<lambda>v. nat (capacity g source v)"
  let ?f' = "\<lambda>v. if in_range g v then nat (capacity g' source v) else nat (capacity g source v)"
  have "sum_list (map ?f' [0..totalNodes g - 1]) + 1 = sum_list (map ?f [0..totalNodes g - 1])"
  proof (rule sum_list_decrease_one [where a = x])
    show "distinct [0..totalNodes g - 1]" by simp
    show "x \<in> set [0..totalNodes g - 1]" using x(1) by (auto simp: in_range_def)
    show "0 < ?f x" using x(2) by simp
    show "?f' x = ?f x - 1" using row [OF x(1)] x by (simp add: nat_diff_distrib')
    show "?f' v = ?f v" if "v \<noteq> x" for v using row [of v] that by simp
  qed
  moreover have "map ?f' [0..totalNodes g - 1] = map (\<lambda>v. nat (capacity g' source v)) [0..totalNodes g - 1]"
    by (intro map_cong) (auto simp: in_range_def)
  ultimately show ?thesis by (simp add: out_cap_def tn)
qed

lemma findAugmentingPath_total:
  assumes "wf_FF ff" "in_range (graph ff) source" "in_range (graph ff) sink" "source \<noteq> sink"
  shows "\<exists>found path' ff'.
           findAugmentingPath ff [] source sink = Some (found, path', ff') \<and>
           dfs_post ff source sink found path' ff'"
  unfolding findAugmentingPath_def
  using assms
  by (intro findAugmentingPath_loop_total dfs_inv_start) (simp_all add: search_chain_def)

lemma findAugmentingPath_same:
  "findAugmentingPath ff path source source = Some (False, path, ff)"
  unfolding findAugmentingPath_def by (subst findAugmentingPath_loop.simps) simp

lemma good_found:
  assumes post: "dfs_post ff source sink found path' ff'"
    and g: "good ff sink source" and ne: "source \<noteq> sink" and src: "in_range (graph ff) source"
  shows found
proof (rule ccontr)
  assume nf: "\<not> found"
  from post g have "good ff' sink source" unfolding dfs_post_def by blast
  then obtain xs where xs: "xs \<noteq> []" "hd xs = source" "last xs = sink"
    "successively (admissible ff') xs" by (auto simp: good_def)
  with ne obtain y zs where "xs = source # y # zs" by (cases xs; cases "tl xs") auto
  with xs(4) have "admissible ff' source y" by simp
  moreover from post nf have "no_admissible ff' source" "graph ff' = graph ff"
    unfolding dfs_post_def by blast+
  ultimately show False using src by (simp add: no_admissible_iff)
qed

lemma chain_capacity:
  assumes "successively (admissible ff) p"
  shows "successively (\<lambda>a b. capacity (graph ff) a b > 0) p"
  by (rule successively_mono [OF assms]) (simp add: admissible_def)

lemma in_range_cong: "totalNodes g' = totalNodes g \<Longrightarrow> in_range g' = in_range g"
  by (simp add: in_range_def fun_eq_iff)

lemma augment_total:
  assumes "wf_FF ff" "in_range (graph ff) source" "in_range (graph ff) sink"
  shows "\<exists>k ff'.
           (\<forall>pushed. augmentFlowAlongPath_try ff [] source sink pushed =
                       Some (Inr (pushed + k), ff')) \<and>
           wf_FF ff' \<and> depth ff' = depth ff \<and>
           (augment_step source sink ^^ k) (graph ff) (graph ff') \<and>
           out_cap (graph ff') source + k = out_cap (graph ff) source \<and>
           (\<forall>u v. in_range (graph ff) u \<and> in_range (graph ff) v \<longrightarrow>
              maxFlow ff' ! nat u ! nat v = maxFlow ff ! nat u ! nat v \<or>
              maxFlow ff' ! nat u ! nat v = 0) \<and>
           (good ff sink source \<and> source \<noteq> sink \<longrightarrow> 1 \<le> k)"
  using assms
proof (induction "out_cap (graph ff) source" arbitrary: ff rule: less_induct)
  case less
  note wf = less.prems(1) and src = less.prems(2) and snk = less.prems(3)
  show ?case
  proof (cases "source = sink")
    case True
    have "augmentFlowAlongPath_try ff [] source sink pushed = Some (Inr pushed, ff)" for pushed
      unfolding True
      by (subst augmentFlowAlongPath_try.simps) (simp add: findAugmentingPath_same)
    then show ?thesis using wf True by (intro exI [of _ 0] exI [of _ ff]) simp
  next
    case ne: False
    from findAugmentingPath_total [OF wf src snk ne] obtain found path' ff1 where
      r: "findAugmentingPath ff [] source sink = Some (found, path', ff1)"
         "dfs_post ff source sink found path' ff1"
      by blast
    from r(2) have p: "graph ff1 = graph ff" "depth ff1 = depth ff" "wf_FF ff1"
      "\<And>u v. in_range (graph ff) u \<Longrightarrow> in_range (graph ff) v \<Longrightarrow>
        maxFlow ff1 ! nat u ! nat v = maxFlow ff ! nat u ! nat v \<or> maxFlow ff1 ! nat u ! nat v = 0"
      unfolding dfs_post_def by blast+
    show ?thesis
    proof (cases found)
      case False
      have "augmentFlowAlongPath_try ff [] source sink pushed = Some (Inr pushed, ff1)" for pushed
        using r(1) False by (subst augmentFlowAlongPath_try.simps) simp
      moreover have "\<not> (good ff sink source \<and> source \<noteq> sink)"
        using good_found [OF r(2) _ ne src] False by blast
      ultimately show ?thesis using p by (intro exI [of _ 0] exI [of _ ff1]) simp
    next
      case True
      with r(2) have c: "path' \<noteq> []" "hd path' = source" "last path' = sink"
        "successively (admissible ff1) path'"
        unfolding dfs_post_def by blast+
      have wg: "wf_Graph (graph ff1)" using p(3) by (simp add: wf_FF_def)
      have rng: "\<forall>v \<in> set path'. in_range (graph ff1) v"
        using chain_in_range [OF c(4) c(1)] c(2) src p(1) by simp
      from update_loop_effect [OF wg rng] obtain g' where g':
        "update_loop ff1 path' = (Inr (), ff1\<lparr>graph := g'\<rparr>)"
        "wf_Graph g'" "nodes g' = nodes (graph ff1)" "totalNodes g' = totalNodes (graph ff1)"
        "\<forall>i j. in_range (graph ff1) i \<and> in_range (graph ff1) j \<longrightarrow>
            capacity g' i j =
              wrap_int (capacity (graph ff1) i j - int (count_list (edges_of path') (i, j))
                                                 + int (count_list (edges_of path') (j, i)))"
        by blast
      let ?ff2 = "ff1\<lparr>graph := g'\<rparr>"
      have dist: "distinct path'" by (rule chain_distinct [OF c(4)])
      have capp: "successively (\<lambda>a b. capacity (graph ff1) a b > 0) path'"
        by (rule chain_capacity [OF c(4)])
      have step: "augment_step source sink (graph ff) g'"
        unfolding augment_step_def
        using c(1,2,3) dist rng capp g'(2,3,4,5) p(1)
        by (intro exI [of _ path']) simp
      have oc: "out_cap g' source + 1 = out_cap (graph ff) source"
        using out_cap_step [OF wg _ c(1,2,3) dist ne capp rng g'(4) g'(5)] src p(1) by simp
      have unfold: "augmentFlowAlongPath_try ff [] source sink pushed =
                    augmentFlowAlongPath_try ?ff2 [] source sink (pushed + 1)" for pushed
        using r(1) True g'(1) by (subst augmentFlowAlongPath_try.simps) (simp add: Let_def)
      have ir: "in_range g' = in_range (graph ff)"
        by (rule in_range_cong) (simp add: g'(4) p(1))
      have wf2: "wf_FF ?ff2" using p(3) g'(2,4) by (simp add: wf_FF_def)
      have m: "out_cap (graph ?ff2) source < out_cap (graph ff) source" using oc by simp
      have src2: "in_range (graph ?ff2) source" and snk2: "in_range (graph ?ff2) sink"
        using src snk ir by simp_all
      from less.hyps [OF m wf2 src2 snk2] obtain k ff' where
        k: "\<And>pushed. augmentFlowAlongPath_try ?ff2 [] source sink pushed =
                       Some (Inr (pushed + k), ff')"
           "wf_FF ff'" "depth ff' = depth ?ff2"
           "(augment_step source sink ^^ k) (graph ?ff2) (graph ff')"
           "out_cap (graph ff') source + k = out_cap (graph ?ff2) source"
           "\<forall>u v. in_range (graph ?ff2) u \<and> in_range (graph ?ff2) v \<longrightarrow>
              maxFlow ff' ! nat u ! nat v = maxFlow ?ff2 ! nat u ! nat v \<or>
              maxFlow ff' ! nat u ! nat v = 0"
        by blast
      have steps: "(augment_step source sink ^^ Suc k) (graph ff) (graph ff')"
        using step k(4) by (intro relpowp_Suc_I2 [where y = g']) simp_all
      have mono: "maxFlow ff' ! nat u ! nat v = maxFlow ff ! nat u ! nat v \<or>
              maxFlow ff' ! nat u ! nat v = 0"
        if "in_range (graph ff) u" "in_range (graph ff) v" for u v
      proof -
        have "in_range (graph ?ff2) u \<and> in_range (graph ?ff2) v" using that ir by simp
        with k(6) have "maxFlow ff' ! nat u ! nat v = maxFlow ?ff2 ! nat u ! nat v \<or>
              maxFlow ff' ! nat u ! nat v = 0" by blast
        with p(4) [OF that] show ?thesis by auto
      qed
      have res: "augmentFlowAlongPath_try ff [] source sink pushed =
                   Some (Inr (pushed + Suc k), ff')" for pushed
        unfolding unfold k(1) by simp
      show ?thesis
        using res k(2,3,5) steps oc mono p(2)
        by (intro exI [of _ "Suc k"] exI [of _ ff']) simp
    qed
  qed
qed

lemma snapshot_good:
  assumes t: "tree_ok g source dep" and snk: "in_range g sink" "dep ! nat sink \<noteq> -1"
    and ff: "graph ff = g" "depth ff = dep" "maxFlow ff = adjacencyMatrix g"
  shows "good ff sink source"
proof -
  from tree_chain [OF t snk] obtain xs where xs: "xs \<noteq> []" "hd xs = source" "last xs = sink"
    "successively (level_edge g dep) xs" by blast
  have "successively (admissible ff) xs"
    by (rule successively_mono [OF xs(4)]) (simp add: level_edge_def admissible_def ff)
  with xs show ?thesis unfolding good_def by blast
qed

lemma augmentFlowAlongPath_total:
  assumes "wf_FF ff" "in_range (graph ff) source" "in_range (graph ff) sink"
  shows "\<exists>k ff'. augmentFlowAlongPath ff [] source sink = Some (Inr k, ff') \<and>
           wf_FF ff' \<and> depth ff' = depth ff \<and>
           (augment_step source sink ^^ k) (graph ff) (graph ff') \<and>
           out_cap (graph ff') source + k = out_cap (graph ff) source \<and>
           (\<forall>u v. in_range (graph ff) u \<and> in_range (graph ff) v \<longrightarrow>
              maxFlow ff' ! nat u ! nat v = maxFlow ff ! nat u ! nat v \<or>
              maxFlow ff' ! nat u ! nat v = 0) \<and>
           (good ff sink source \<and> source \<noteq> sink \<longrightarrow> 1 \<le> k)"
proof -
  from augment_total [OF assms] obtain k ff' where
    k: "augmentFlowAlongPath_try ff [] source sink 0 = Some (Inr (0 + k), ff')"
    and rest: "wf_FF ff' \<and> depth ff' = depth ff \<and>
           (augment_step source sink ^^ k) (graph ff) (graph ff') \<and>
           out_cap (graph ff') source + k = out_cap (graph ff) source \<and>
           (\<forall>u v. in_range (graph ff) u \<and> in_range (graph ff) v \<longrightarrow>
              maxFlow ff' ! nat u ! nat v = maxFlow ff ! nat u ! nat v \<or>
              maxFlow ff' ! nat u ! nat v = 0) \<and>
           (good ff sink source \<and> source \<noteq> sink \<longrightarrow> 1 \<le> k)"
    by blast
  have "augmentFlowAlongPath ff [] source sink = Some (Inr k, ff')"
    using k by (simp add: augmentFlowAlongPath_def catch_rethrow_def)
  with rest show ?thesis by blast
qed

lemma augment_steps_totalNodes:
  "(augment_step source sink ^^ k) g g' \<Longrightarrow> totalNodes g' = totalNodes g \<and> nodes g' = nodes g"
proof (induction k arbitrary: g')
  case 0
  then show ?case by simp
next
  case (Suc k)
  then obtain h where h: "(augment_step source sink ^^ k) g h" "augment_step source sink h g'"
    by auto
  from h(2) have "totalNodes g' = totalNodes h \<and> nodes g' = nodes h"
    unfolding augment_step_def by blast
  with Suc.IH [OF h(1)] show ?case by simp
qed

lemma phases_total:
  assumes "wf_Graph (graph ff)" "in_range (graph ff) source" "in_range (graph ff) sink"
  shows "\<exists>ps ff'. calculateMaxFlow_loop ff source sink phases = Some (Inr (phases @ ps), ff') \<and>
           wf_Graph (graph ff') \<and>
           (\<forall>k \<in> set ps. 1 \<le> k) \<and>
           (augment_step source sink ^^ sum_list ps) (graph ff) (graph ff') \<and>
           \<not> (source \<noteq> sink \<and> reachable (graph ff') source sink) \<and>
           levelGraph ff' source sink = Some (False, ff') \<and>
           (ps = [] \<longrightarrow> graph ff' = graph ff \<and> maxFlow ff' = maxFlow ff)"
  using assms
proof (induction "out_cap (graph ff) source" arbitrary: ff phases rule: less_induct)
  case less
  note wg = less.prems(1) and src = less.prems(2) and snk = less.prems(3)
  from levelGraph_run_correct [OF src snk] obtain found dep q front bk where
    r: "levelGraph_run (graph ff) source sink = Some (found, dep, q, front, bk)"
       "loop_post (graph ff) source sink found dep q front bk"
       "found \<longleftrightarrow> source \<noteq> sink \<and> reachable (graph ff) source sink"
    by blast
  let ?ff1 = "ff\<lparr>depth := dep\<rparr>"
  have lg: "levelGraph ff source sink = Some (found, ?ff1)"
    using r(1) by (simp add: levelGraph_def)
  from r(2) have t: "tree_ok (graph ff) source dep" unfolding loop_post_def by blast
  show ?case
  proof (cases found)
    case False
    have "calculateMaxFlow_loop ff source sink phases = Some (Inr phases, ?ff1)"
      using lg False by (subst calculateMaxFlow_loop.simps) simp
    moreover have "levelGraph ?ff1 source sink = Some (False, ?ff1)"
      using r(1) False by (simp add: levelGraph_def)
    ultimately show ?thesis
      using wg r(3) False by (intro exI [of _ "[]"] exI [of _ ?ff1]) simp
  next
    case True
    with r(2,3) have ne: "source \<noteq> sink" and ds: "dep ! nat sink \<noteq> -1"
      unfolding loop_post_def by blast+
    let ?ff2 = "?ff1\<lparr>maxFlow := getAdjacencyMatrix (graph ?ff1)\<rparr>"
    have g2: "graph ?ff2 = graph ff" by simp
    have wf2: "wf_FF ?ff2"
      using wg t by (simp add: wf_FF_def tree_ok_def getAdjacencyMatrix_def wf_Graph_square)
    have good2: "good ?ff2 sink source"
      by (rule snapshot_good [OF t snk ds]) (simp_all add: getAdjacencyMatrix_def)
    have src2: "in_range (graph ?ff2) source" and snk2: "in_range (graph ?ff2) sink"
      using src snk by simp_all
    from augmentFlowAlongPath_total [OF wf2 src2 snk2] good2 ne obtain k ff3 where
      a: "augmentFlowAlongPath ?ff2 [] source sink = Some (Inr k, ff3)"
         "wf_FF ff3"
         "(augment_step source sink ^^ k) (graph ?ff2) (graph ff3)"
         "out_cap (graph ff3) source + k = out_cap (graph ?ff2) source"
         "1 \<le> k"
      by blast
    have unfold: "calculateMaxFlow_loop ff source sink phases =
                  calculateMaxFlow_loop ff3 source sink (phases @ [k])"
      using lg True a(1) by (subst calculateMaxFlow_loop.simps) simp
    have tn: "totalNodes (graph ff3) = totalNodes (graph ff)"
      using augment_steps_totalNodes [OF a(3)] by simp
    have ir: "in_range (graph ff3) = in_range (graph ff)" by (rule in_range_cong [OF tn])
    have m: "out_cap (graph ff3) source < out_cap (graph ff) source" using a(4,5) by simp
    have wg3: "wf_Graph (graph ff3)" using a(2) by (simp add: wf_FF_def)
    have src3: "in_range (graph ff3) source" and snk3: "in_range (graph ff3) sink"
      using src snk ir by simp_all
    from less.hyps [OF m wg3 src3 snk3, of "phases @ [k]"] obtain ps ff' where
      p: "calculateMaxFlow_loop ff3 source sink (phases @ [k]) = Some (Inr ((phases @ [k]) @ ps), ff')"
         "wf_Graph (graph ff')" "\<forall>k \<in> set ps. 1 \<le> k"
         "(augment_step source sink ^^ sum_list ps) (graph ff3) (graph ff')"
         "\<not> (source \<noteq> sink \<and> reachable (graph ff') source sink)"
         "levelGraph ff' source sink = Some (False, ff')"
      by blast
    have "(augment_step source sink ^^ k OO augment_step source sink ^^ sum_list ps)
            (graph ff) (graph ff')"
      using a(3) p(4) by (intro relcomppI [where b = "graph ff3"]) simp_all
    then have steps: "(augment_step source sink ^^ sum_list (k # ps)) (graph ff) (graph ff')"
      by (simp add: relpowp_add)
    show ?thesis
      using p(1,2,3,5,6) unfold steps a(5)
      by (intro exI [of _ "k # ps"] exI [of _ ff']) simp
  qed
qed

lemma calculateMaxFlow_in_range:
  assumes "wf_Graph (graph ff)" "in_range (graph ff) source" "in_range (graph ff) sink"
  shows "\<exists>ps ff'. calculateMaxFlow ff source sink = Some (Inr ps, ff') \<and>
           wf_Graph (graph ff') \<and>
           (\<forall>k \<in> set ps. 1 \<le> k) \<and>
           (augment_step source sink ^^ sum_list ps) (graph ff) (graph ff') \<and>
           \<not> (source \<noteq> sink \<and> reachable (graph ff') source sink) \<and>
           levelGraph ff' source sink = Some (False, ff') \<and>
           (ps = [] \<longrightarrow> graph ff' = graph ff \<and> maxFlow ff' = maxFlow ff)"
proof -
  from phases_total [OF assms, of "[]"] obtain ps ff' where
    p: "calculateMaxFlow_loop ff source sink [] = Some (Inr ([] @ ps), ff')"
    and rest: "wf_Graph (graph ff') \<and>
           (\<forall>k \<in> set ps. 1 \<le> k) \<and>
           (augment_step source sink ^^ sum_list ps) (graph ff) (graph ff') \<and>
           \<not> (source \<noteq> sink \<and> reachable (graph ff') source sink) \<and>
           levelGraph ff' source sink = Some (False, ff') \<and>
           (ps = [] \<longrightarrow> graph ff' = graph ff \<and> maxFlow ff' = maxFlow ff)"
    by blast
  have "calculateMaxFlow ff source sink = Some (Inr ps, ff')"
    using p assms(2,3)
    by (simp add: calculateMaxFlow_def calculateMaxFlow_try_def catch_rethrow_def
        in_range_def getNodes_def)
  with rest show ?thesis by blast
qed

lemma calculateMaxFlow_out_of_range:
  assumes "\<not> (in_range (graph ff) source \<and> in_range (graph ff) sink)"
  shows "calculateMaxFlow_try ff source sink =
           Some (Inl (invalid_argument ''Source or sink is out of valid range.''), ff)"
    and "calculateMaxFlow ff source sink =
           Some (Inl (runtime_error
             ''Error in calculateMaxFlow: Source or sink is out of valid range.''), ff)"
proof -
  show a: "calculateMaxFlow_try ff source sink =
           Some (Inl (invalid_argument ''Source or sink is out of valid range.''), ff)"
    using assms by (auto simp: calculateMaxFlow_try_def in_range_def getNodes_def)
  show "calculateMaxFlow ff source sink =
           Some (Inl (runtime_error
             ''Error in calculateMaxFlow: Source or sink is out of valid range.''), ff)"
    by (simp add: calculateMaxFlow_def a catch_rethrow_def)
qed

lemma calculateMaxFlow_no_phase:
  assumes "in_range (graph ff) source" "in_range (graph ff) sink"
    and "levelGraph_run (graph ff) source sink = Some (False, dep, q, front, bk)"
  shows "calculateMaxFlow ff source sink = Some (Inr [], ff\<lparr>depth := dep\<rparr>)"
proof -
  have "levelGraph ff source sink = Some (False, ff\<lparr>depth := dep\<rparr>)"
    using assms(3) by (simp add: levelGraph_def)
  then have "calculateMaxFlow_loop ff source sink [] = Some (Inr [], ff\<lparr>depth := dep\<rparr>)"
    by (subst calculateMaxFlow_loop.simps) simp
  then show ?thesis
    using assms(1,2)
    by (simp add: calculateMaxFlow_def calculateMaxFlow_try_def catch_rethrow_def
        in_range_def getNodes_def)
qed

lemma calculateMaxFlow_fixpoint:
  assumes "in_range (graph ff) source" "in_range (graph ff) sink"
    and "levelGraph ff source sink = Some (False, ff)"
  shows "calculateMaxFlow ff source sink = Some (Inr [], ff)"
proof -
  have "calculateMaxFlow_loop ff source sink [] = Some (Inr [], ff)"
    using assms(3) by (subst calculateMaxFlow_loop.simps) simp
  then show ?thesis
    using assms(1,2)
    by (simp add: calculateMaxFlow_def calculateMaxFlow_try_def catch_rethrow_def
        in_range_def getNodes_def)
qed

lemma levelGraph_False_depth:
  assumes "in_range (graph ff) source" "in_range (graph ff) sink" "source \<noteq> sink"
    and "levelGraph ff source sink = Some (False, ff)"
  shows "depth ff ! nat sink = -1"
proof -
  from levelGraph_run_total [OF assms(1,2)] obtain found dep q front bk where
    r: "levelGraph_run (graph ff) source sink = Some (found, dep, q, front, bk)"
       "loop_post (graph ff) source sink found dep q front bk"
    by blast
  with assms(4) have "found = False" "ff\<lparr>depth := dep\<rparr> = ff" by (simp_all add: levelGraph_def)
  then have "\<not> found" "depth ff = dep" by (simp, metis FordFulkerson.select_convs(1) FordFulkerson.surjective FordFulkerson.update_convs(1))
  with r(2) assms(3) show ?thesis unfolding loop_post_def by simp
qed

text \<open>
  Claim C2.  On every well-formed graph (whatever its capacities, so in particular on
  every fully-wired unit-capacity network) and for every source and sink in range,
  \<open>calculateMaxFlow\<close> returns, and returns normally.  Every phase it ran committed at
  least one path.  The loop has ended because \<open>levelGraph\<close> answered false: on the
  final state it answers false again and changes nothing, and when the source is not the
  sink, the sink has depth -1 and is unreachable through edges of positive capacity.
  Every path search of a phase returns: \<open>findAugmentingPath\<close> terminates from every
  well-formed engine state (that a node is abandoned for the rest of the phase once the
  search backtracks from it is claim C3).
\<close>

theorem calculateMaxFlow_terminates:
  assumes "wf_Graph (graph ff)" "in_range (graph ff) source" "in_range (graph ff) sink"
  shows "\<exists>phases ff'.
           calculateMaxFlow ff source sink = Some (Inr phases, ff') \<and>
           (\<forall>pushed \<in> set phases. 1 \<le> pushed) \<and>
           levelGraph ff' source sink = Some (False, ff') \<and>
           (source \<noteq> sink \<longrightarrow> depth ff' ! nat sink = -1 \<and> \<not> reachable (graph ff') source sink) \<and>
           (\<forall>ff0. wf_FF ff0 \<and> in_range (graph ff0) source \<and> in_range (graph ff0) sink \<longrightarrow>
                  (\<exists>r. findAugmentingPath ff0 [] source sink = Some r))"
proof -
  from calculateMaxFlow_in_range [OF assms] obtain ps ff' where
    p: "calculateMaxFlow ff source sink = Some (Inr ps, ff')"
       "\<forall>k \<in> set ps. 1 \<le> k"
       "(augment_step source sink ^^ sum_list ps) (graph ff) (graph ff')"
       "\<not> (source \<noteq> sink \<and> reachable (graph ff') source sink)"
       "levelGraph ff' source sink = Some (False, ff')"
    by blast
  have tn: "totalNodes (graph ff') = totalNodes (graph ff)"
    using augment_steps_totalNodes [OF p(3)] by simp
  have ir: "in_range (graph ff') = in_range (graph ff)" by (rule in_range_cong [OF tn])
  have d: "depth ff' ! nat sink = -1" if "source \<noteq> sink"
    by (rule levelGraph_False_depth [OF _ _ that p(5)]) (simp_all add: ir assms)
  have s: "\<exists>r. findAugmentingPath ff0 [] source sink = Some r"
    if "wf_FF ff0 \<and> in_range (graph ff0) source \<and> in_range (graph ff0) sink" for ff0
  proof (cases "source = sink")
    case True
    show ?thesis unfolding True by (rule exI, rule findAugmentingPath_same)
  next
    case False
    from that findAugmentingPath_total [OF _ _ _ False, of ff0] show ?thesis by blast
  qed
  from p(1,2,4,5) d s show ?thesis by blast
qed

theorem calculateMaxFlow_terminates_witness:
  "wf_Graph (graph (FordFulkerson_new example_graph)) \<and>
   in_range (graph (FordFulkerson_new example_graph)) 0 \<and>
   in_range (graph (FordFulkerson_new example_graph)) 5 \<and>
   map_option fst (calculateMaxFlow (FordFulkerson_new example_graph) 0 5) = Some (Inr [2]) \<and>
   (\<exists>phases ff'.
      calculateMaxFlow (FordFulkerson_new example_graph) 0 5 = Some (Inr phases, ff') \<and>
      levelGraph ff' 0 5 = Some (False, ff') \<and> depth ff' ! nat 5 = -1)"
proof -
  let ?ff = "FordFulkerson_new example_graph"
  have g: "graph ?ff = example_graph" by (simp add: FordFulkerson_new_def)
  have h: "wf_Graph (graph ?ff)" "in_range (graph ?ff) 0" "in_range (graph ?ff) 5"
    unfolding g by (rule example_graph_wf) (simp_all add: in_range_def example_graph_eval)
  have e: "map_option fst (calculateMaxFlow ?ff 0 5) = Some (Inr [2])" by code_simp
  from calculateMaxFlow_terminates [OF h] have
    "\<exists>phases ff'. calculateMaxFlow ?ff 0 5 = Some (Inr phases, ff') \<and>
      levelGraph ff' 0 5 = Some (False, ff') \<and> depth ff' ! nat 5 = -1"
    by fastforce
  with h e show ?thesis by blast
qed

text \<open>
  Claim C5.  When the source or the sink is outside \<open>[0, totalNodes)\<close>, the range check
  of \<open>calculateMaxFlow\<close> throws \<open>std::invalid_argument\<close> before anything else runs; the
  function's own handler passes it on as a \<open>std::runtime_error\<close> with the same message
  behind the prefix, and the engine and its graph are exactly as before the call.  When
  both are in range, the call returns normally: no exception leaves it.
\<close>

theorem calculateMaxFlow_range_check:
  assumes "wf_Graph (graph ff)"
  shows "(\<not> (in_range (graph ff) source \<and> in_range (graph ff) sink) \<longrightarrow>
            calculateMaxFlow_try ff source sink =
              Some (Inl (invalid_argument ''Source or sink is out of valid range.''), ff) \<and>
            calculateMaxFlow ff source sink =
              Some (Inl (runtime_error
                ''Error in calculateMaxFlow: Source or sink is out of valid range.''), ff)) \<and>
         (in_range (graph ff) source \<and> in_range (graph ff) sink \<longrightarrow>
            (\<exists>phases ff'. calculateMaxFlow ff source sink = Some (Inr phases, ff')))"
proof (intro conjI impI)
  assume a: "\<not> (in_range (graph ff) source \<and> in_range (graph ff) sink)"
  show "calculateMaxFlow_try ff source sink =
              Some (Inl (invalid_argument ''Source or sink is out of valid range.''), ff)"
    by (rule calculateMaxFlow_out_of_range [OF a])
  show "calculateMaxFlow ff source sink =
              Some (Inl (runtime_error
                ''Error in calculateMaxFlow: Source or sink is out of valid range.''), ff)"
    by (rule calculateMaxFlow_out_of_range [OF a])
next
  assume "in_range (graph ff) source \<and> in_range (graph ff) sink"
  then have "in_range (graph ff) source" "in_range (graph ff) sink" by blast+
  from calculateMaxFlow_in_range [OF assms this]
  show "\<exists>phases ff'. calculateMaxFlow ff source sink = Some (Inr phases, ff')" by blast
qed

theorem calculateMaxFlow_range_check_witness:
  "wf_Graph (graph (FordFulkerson_new example_graph)) \<and>
   calculateMaxFlow (FordFulkerson_new example_graph) 0 6 =
     Some (Inl (runtime_error
       ''Error in calculateMaxFlow: Source or sink is out of valid range.''),
       FordFulkerson_new example_graph) \<and>
   calculateMaxFlow (FordFulkerson_new example_graph) (-1) 5 =
     Some (Inl (runtime_error
       ''Error in calculateMaxFlow: Source or sink is out of valid range.''),
       FordFulkerson_new example_graph) \<and>
   (\<exists>phases ff'. calculateMaxFlow (FordFulkerson_new example_graph) 0 5 = Some (Inr phases, ff'))"
proof -
  let ?ff = "FordFulkerson_new example_graph"
  have g: "graph ?ff = example_graph" by (simp add: FordFulkerson_new_def)
  have h: "wf_Graph (graph ?ff)" unfolding g by (rule example_graph_wf)
  have r: "in_range (graph ?ff) 0" "in_range (graph ?ff) 5" "\<not> in_range (graph ?ff) 6"
    "\<not> in_range (graph ?ff) (-1)"
    unfolding g by (simp_all add: in_range_def example_graph_eval)
  from calculateMaxFlow_range_check [OF h, of 0 6] calculateMaxFlow_range_check [OF h, of "-1" 5]
    calculateMaxFlow_range_check [OF h, of 0 5] r h
  show ?thesis by simp
qed

text \<open>
  On the six-node example network, \<open>calculateMaxFlow(0, 6)\<close> ends with a
  \<open>std::runtime_error\<close>: the \<open>std::invalid_argument\<close> of the range check does not leave the
  function.
\<close>

theorem calculateMaxFlow_range_check_counterexample:
  "calculateMaxFlow (FordFulkerson_new example_graph) 0 6 =
     Some (Inl (runtime_error
       ''Error in calculateMaxFlow: Source or sink is out of valid range.''),
       FordFulkerson_new example_graph) \<and>
   calculateMaxFlow (FordFulkerson_new example_graph) 0 6 \<noteq>
     Some (Inl (invalid_argument ''Source or sink is out of valid range.''),
       FordFulkerson_new example_graph)"
proof -
  let ?ff = "FordFulkerson_new example_graph"
  have "\<not> (in_range (graph ?ff) 0 \<and> in_range (graph ?ff) 6)"
    by (simp add: FordFulkerson_new_def in_range_def example_graph_eval)
  from calculateMaxFlow_out_of_range(2) [OF this] show ?thesis by simp
qed

section \<open>The level graph\<close>

lemma loop_post_found_queue:
  assumes "queue_ok g (dep[nat sink := -1]) q bk" "length dep = nat (totalNodes g)"
    "in_range g sink"
  shows "sink \<notin> set (take bk q)"
    and "\<forall>v. in_range g v \<and> v \<noteq> sink \<longrightarrow> (dep ! nat v \<noteq> -1 \<longleftrightarrow> v \<in> set (take bk q))"
proof -
  from assms(1) have d: "\<And>v. in_range g v \<Longrightarrow>
      ((dep[nat sink := -1]) ! nat v \<noteq> -1 \<longleftrightarrow> v \<in> set (take bk q))"
    unfolding queue_ok_def by blast
  have "(dep[nat sink := -1]) ! nat sink = -1"
    using in_range_nat [OF assms(3)] assms(2) by simp
  with d [OF assms(3)] show "sink \<notin> set (take bk q)" by simp
  show "\<forall>v. in_range g v \<and> v \<noteq> sink \<longrightarrow> (dep ! nat v \<noteq> -1 \<longleftrightarrow> v \<in> set (take bk q))"
  proof (intro allI impI)
    fix v assume v: "in_range g v \<and> v \<noteq> sink"
    then have "nat sink \<noteq> nat v" using in_range_nat_eq [OF assms(3), of v] by auto
    then have "(dep[nat sink := -1]) ! nat v = dep ! nat v" by simp
    with d [of v] v show "dep ! nat v \<noteq> -1 \<longleftrightarrow> v \<in> set (take bk q)" by simp
  qed
qed

text \<open>
  What \<open>levelGraph\<close> leaves behind.  On a well-formed graph with source and sink in range
  it returns, and the depths it writes follow edges of positive capacity only: the source
  has depth 0, every other node with a depth has a parent with a depth, an edge of positive
  capacity from it and one level less, and a node that is not reachable from the source
  keeps depth -1.  When the source is not the sink, the function returns true exactly when
  the sink is reachable, which is exactly when the sink has been given a depth; the sink is
  then not on the queue and the other nodes with a depth are the queue's entries.  It
  returns false with the queue drained, and then the nodes with a depth are exactly the
  reachable ones.
\<close>

lemma levelGraph_depths:
  assumes "wf_Graph (graph ff)" "in_range (graph ff) source" "in_range (graph ff) sink"
  shows "\<exists>found dep q front bk.
     levelGraph_run (graph ff) source sink = Some (found, dep, q, front, bk) \<and>
     levelGraph ff source sink = Some (found, ff\<lparr>depth := dep\<rparr>) \<and>
     (found \<longleftrightarrow> source \<noteq> sink \<and> reachable (graph ff) source sink) \<and>
     (source \<noteq> sink \<longrightarrow> (found \<longleftrightarrow> dep ! nat sink \<noteq> -1)) \<and>
     length dep = nat (totalNodes (graph ff)) \<and> dep ! nat source = 0 \<and>
     (\<forall>v. in_range (graph ff) v \<and> dep ! nat v \<noteq> -1 \<and> v \<noteq> source \<longrightarrow>
        (\<exists>u. in_range (graph ff) u \<and> dep ! nat u \<noteq> -1 \<and> capacity (graph ff) u v > 0 \<and>
             dep ! nat v = dep ! nat u + 1)) \<and>
     (\<forall>v. in_range (graph ff) v \<and> \<not> reachable (graph ff) source v \<longrightarrow> dep ! nat v = -1) \<and>
     (found \<longrightarrow> front \<le> bk \<and> sink \<notin> set (take bk q) \<and>
        (\<forall>v. in_range (graph ff) v \<and> v \<noteq> sink \<longrightarrow>
           (dep ! nat v \<noteq> -1 \<longleftrightarrow> v \<in> set (take bk q)))) \<and>
     (\<not> found \<longrightarrow> front = bk \<and>
        (\<forall>v. in_range (graph ff) v \<longrightarrow>
           (dep ! nat v \<noteq> -1 \<longleftrightarrow> reachable (graph ff) source v)))"
proof -
  let ?g = "graph ff"
  from levelGraph_run_correct [OF assms(2,3)] obtain found dep q front bk where
    r: "levelGraph_run ?g source sink = Some (found, dep, q, front, bk)"
       "loop_post ?g source sink found dep q front bk"
       "found \<longleftrightarrow> source \<noteq> sink \<and> reachable ?g source sink"
       "\<forall>v. in_range ?g v \<and> dep ! nat v \<noteq> -1 \<longrightarrow> reachable ?g source v"
       "\<not> found \<longrightarrow> (\<forall>v. reachable ?g source v \<longrightarrow> in_range ?g v \<and> dep ! nat v \<noteq> -1)"
    by blast
  from r(2) have t: "tree_ok ?g source dep" and fb: "front \<le> bk"
    and pf: "found \<Longrightarrow> dep ! nat sink \<noteq> -1 \<and> queue_ok ?g (dep[nat sink := -1]) q bk"
    and pn: "\<not> found \<Longrightarrow> front = bk \<and> (source \<noteq> sink \<longrightarrow> dep ! nat sink = -1)"
    unfolding loop_post_def by blast+
  from t have len: "length dep = nat (totalNodes ?g)" and s0: "dep ! nat source = 0"
    and tr: "\<forall>v. in_range ?g v \<and> dep ! nat v \<noteq> -1 \<and> v \<noteq> source \<longrightarrow>
        (\<exists>u. in_range ?g u \<and> dep ! nat u \<noteq> -1 \<and> capacity ?g u v > 0 \<and>
             dep ! nat v = dep ! nat u + 1)"
    unfolding tree_ok_def by blast+
  have lg: "levelGraph ff source sink = Some (found, ff\<lparr>depth := dep\<rparr>)"
    using r(1) by (simp add: levelGraph_def)
  have inst: "source \<noteq> sink \<longrightarrow> (found \<longleftrightarrow> dep ! nat sink \<noteq> -1)"
    using pf pn by blast
  have unr: "\<forall>v. in_range ?g v \<and> \<not> reachable ?g source v \<longrightarrow> dep ! nat v = -1"
    using r(4) by blast
  have fq: "found \<longrightarrow> front \<le> bk \<and> sink \<notin> set (take bk q) \<and>
        (\<forall>v. in_range ?g v \<and> v \<noteq> sink \<longrightarrow> (dep ! nat v \<noteq> -1 \<longleftrightarrow> v \<in> set (take bk q)))"
    using fb pf loop_post_found_queue [OF _ len assms(3)] by blast
  have nq: "\<not> found \<longrightarrow> front = bk \<and>
        (\<forall>v. in_range ?g v \<longrightarrow> (dep ! nat v \<noteq> -1 \<longleftrightarrow> reachable ?g source v))"
    using pn r(4,5) by blast
  show ?thesis
    using r(1,3) lg inst len s0 tr unr fq nq
    by (intro exI [of _ found] exI [of _ dep] exI [of _ q] exI [of _ front] exI [of _ bk]) blast
qed

lemma levelGraph_depths_example:
  "wf_Graph (graph (FordFulkerson_new example_graph)) \<and>
   in_range (graph (FordFulkerson_new example_graph)) 0 \<and>
   in_range (graph (FordFulkerson_new example_graph)) 5 \<and>
   levelGraph_run example_graph 0 5 = Some (True, [0, 1, 1, 2, 2, 3], [0, 1, 2, 3, 4, 0], 4, 5) \<and>
   reachable example_graph 0 5"
proof -
  let ?ff = "FordFulkerson_new example_graph"
  have g: "graph ?ff = example_graph" by (simp add: FordFulkerson_new_def)
  have h: "wf_Graph (graph ?ff)" "in_range (graph ?ff) 0" "in_range (graph ?ff) 5"
    unfolding g by (rule example_graph_wf) (simp_all add: in_range_def example_graph_eval)
  have e: "levelGraph_run example_graph 0 5 = Some (True, [0, 1, 1, 2, 2, 3], [0, 1, 2, 3, 4, 0], 4, 5)"
    by code_simp
  from levelGraph_depths [OF h] e have "reachable example_graph 0 5"
    unfolding g by auto
  with h e show ?thesis by blast
qed



section \<open>Idempotence\<close>

text \<open>
  Claim C7.  On a graph in which the sink is not reachable from the source through edges
  of positive capacity, \<open>calculateMaxFlow\<close> runs no phase and returns with the capacity
  matrix (and the snapshot) as they were.  In particular a second call on the state a
  first call has returned runs no phase and returns that very state.
\<close>

theorem calculateMaxFlow_idempotent:
  assumes "wf_Graph (graph ff)" "in_range (graph ff) source" "in_range (graph ff) sink"
  shows "(\<not> reachable (graph ff) source sink \<longrightarrow>
            (\<exists>ff'. calculateMaxFlow ff source sink = Some (Inr [], ff') \<and>
                   graph ff' = graph ff \<and> maxFlow ff' = maxFlow ff)) \<and>
         (\<forall>phases ff1. calculateMaxFlow ff source sink = Some (Inr phases, ff1) \<longrightarrow>
            calculateMaxFlow ff1 source sink = Some (Inr [], ff1))"
proof (intro conjI impI allI)
  assume n: "\<not> reachable (graph ff) source sink"
  from levelGraph_run_correct [OF assms(2,3)] obtain found dep q front bk where
    r: "levelGraph_run (graph ff) source sink = Some (found, dep, q, front, bk)"
       "found \<longleftrightarrow> source \<noteq> sink \<and> reachable (graph ff) source sink"
    by blast
  from r(2) n have "found = False" by simp
  with r(1) have "levelGraph_run (graph ff) source sink = Some (False, dep, q, front, bk)"
    by simp
  from calculateMaxFlow_no_phase [OF assms(2,3) this]
  show "\<exists>ff'. calculateMaxFlow ff source sink = Some (Inr [], ff') \<and>
                   graph ff' = graph ff \<and> maxFlow ff' = maxFlow ff"
    by simp
next
  fix phases ff1
  assume c: "calculateMaxFlow ff source sink = Some (Inr phases, ff1)"
  from calculateMaxFlow_in_range [OF assms] c have
    st: "(augment_step source sink ^^ sum_list phases) (graph ff) (graph ff1)"
    and lg: "levelGraph ff1 source sink = Some (False, ff1)"
    by auto
  have tn: "totalNodes (graph ff1) = totalNodes (graph ff)"
    using augment_steps_totalNodes [OF st] by simp
  have ir: "in_range (graph ff1) = in_range (graph ff)" by (rule in_range_cong [OF tn])
  show "calculateMaxFlow ff1 source sink = Some (Inr [], ff1)"
    by (rule calculateMaxFlow_fixpoint [OF _ _ lg]) (simp_all add: ir assms)
qed

lemma unwired_graph_eval:
  "unwired_graph =
     \<lparr>nodes = 2, totalNodes = 4,
      adjacencyMatrix = [[0, 1, 0, 0], [0, 0, 0, 0], [0, 0, 0, 1], [0, 0, 0, 0]]\<rparr>"
  by code_simp

theorem calculateMaxFlow_idempotent_witness:
  "wf_Graph (graph (FordFulkerson_new unwired_graph)) \<and>
   in_range (graph (FordFulkerson_new unwired_graph)) 0 \<and>
   in_range (graph (FordFulkerson_new unwired_graph)) 3 \<and>
   \<not> reachable (graph (FordFulkerson_new unwired_graph)) 0 3 \<and>
   (\<exists>ff'. calculateMaxFlow (FordFulkerson_new unwired_graph) 0 3 = Some (Inr [], ff') \<and>
          graph ff' = unwired_graph) \<and>
   (\<exists>ff1. calculateMaxFlow (FordFulkerson_new example_graph) 0 5 = Some (Inr [2], ff1) \<and>
          calculateMaxFlow ff1 0 5 = Some (Inr [], ff1))"
proof -
  let ?u = "FordFulkerson_new unwired_graph"
  let ?e = "FordFulkerson_new example_graph"
  have gu: "graph ?u = unwired_graph" and ge: "graph ?e = example_graph"
    by (simp_all add: FordFulkerson_new_def)
  have wu: "wf_Graph (graph ?u)" unfolding gu by code_simp
  have ru: "in_range (graph ?u) 0" "in_range (graph ?u) 3"
    unfolding gu by (simp_all add: in_range_def unwired_graph_eval)
  have lu: "map_option fst (levelGraph_run unwired_graph 0 3) = Some False" by code_simp
  have nr: "\<not> reachable (graph ?u) 0 3"
    using levelGraph_run_correct [OF ru] lu unfolding gu by auto
  from calculateMaxFlow_idempotent [OF wu ru] nr
  have a: "\<exists>ff'. calculateMaxFlow ?u 0 3 = Some (Inr [], ff') \<and> graph ff' = unwired_graph"
    unfolding gu by auto
  have he: "wf_Graph (graph ?e)" "in_range (graph ?e) 0" "in_range (graph ?e) 5"
    unfolding ge by (rule example_graph_wf) (simp_all add: in_range_def example_graph_eval)
  have "map_option fst (calculateMaxFlow ?e 0 5) = Some (Inr [2])" by code_simp
  then obtain ff1 where f1: "calculateMaxFlow ?e 0 5 = Some (Inr [2], ff1)" by auto
  with calculateMaxFlow_idempotent [OF he] have "calculateMaxFlow ff1 0 5 = Some (Inr [], ff1)"
    by blast
  with f1 have b: "\<exists>ff1. calculateMaxFlow ?e 0 5 = Some (Inr [2], ff1) \<and>
          calculateMaxFlow ff1 0 5 = Some (Inr [], ff1)" by blast
  from wu ru nr a b show ?thesis by blast
qed

section \<open>Committing a path\<close>

lemma edges_of_member:
  "(a, b) \<in> set (edges_of p) \<Longrightarrow> a \<in> set p \<and> b \<in> set p"
  by (induction p rule: edges_of.induct) auto

lemma edges_of_positive:
  "successively P p \<Longrightarrow> (a, b) \<in> set (edges_of p) \<Longrightarrow> P a b"
  by (induction p rule: induct_list012) auto

lemma edges_of_distinct_count:
  assumes "distinct p" "Suc k < length p"
  shows "count_list (edges_of p) (p ! k, p ! Suc k) = 1"
    and "count_list (edges_of p) (p ! Suc k, p ! k) = 0"
proof -
  have "count_list (edges_of p) (p ! k, p ! Suc k) = 1 \<and>
        count_list (edges_of p) (p ! Suc k, p ! k) = 0"
    using assms
  proof (induction p arbitrary: k rule: induct_list012)
    case 1
    then show ?case by simp
  next
    case (2 x)
    then show ?case by simp
  next
    case (3 x y zs)
    from "3.prems"(1) have xn: "x \<notin> set (y # zs)" and d: "distinct (y # zs)" by simp_all
    note ab = edges_of_absent [OF xn]
    show ?case
    proof (cases k)
      case 0
      have "(x, y) \<noteq> (y, x)" using xn by auto
      then show ?thesis using 0 ab [of y] by (simp del: prod.inject)
    next
      case (Suc k')
      define a where "a = (y # zs) ! k'"
      define b where "b = (y # zs) ! Suc k'"
      have k': "Suc k' < length (y # zs)" using "3.prems"(2) Suc by simp
      then have "a \<in> set (y # zs)" "b \<in> set (y # zs)"
        unfolding a_def b_def by (metis nth_mem Suc_lessD, metis nth_mem)
      with xn have ne: "(x, y) \<noteq> (a, b)" "(x, y) \<noteq> (b, a)" by auto
      from "3.IH"(2) [OF d k'] have ih: "count_list (edges_of (y # zs)) (a, b) = 1"
        "count_list (edges_of (y # zs)) (b, a) = 0"
        unfolding a_def b_def by simp_all
      have pa: "(x # y # zs) ! k = a" "(x # y # zs) ! Suc k = b"
        unfolding a_def b_def Suc by simp_all
      show ?thesis unfolding pa using ne ih by (simp del: prod.inject)
    qed
  qed
  then show "count_list (edges_of p) (p ! k, p ! Suc k) = 1"
    and "count_list (edges_of p) (p ! Suc k, p ! k) = 0" by blast+
qed

lemma pathFlow_loop_Min:
  "pathFlow_loop mf p acc =
     Min (insert acc ((\<lambda>(u, v). mf ! nat u ! nat v) ` set (edges_of p)))"
proof (induction p arbitrary: acc rule: induct_list012)
  case 1
  then show ?case by simp
next
  case (2 x)
  then show ?case by simp
next
  case (3 x y zs)
  let ?S = "(\<lambda>(u, v). mf ! nat u ! nat v) ` set (edges_of (y # zs))"
  have "pathFlow_loop mf (x # y # zs) acc = pathFlow_loop mf (y # zs) (min acc (mf ! nat x ! nat y))"
    by simp
  also have "\<dots> = Min (insert (min acc (mf ! nat x ! nat y)) ?S)" by (rule "3.IH"(2))
  also have "\<dots> = Min (insert acc (insert (mf ! nat x ! nat y) ?S))"
  proof -
    have f: "finite ?S" by simp
    have "Min (insert acc (insert (mf ! nat x ! nat y) ?S)) =
          min acc (Min (insert (mf ! nat x ! nat y) ?S))"
      using f by (intro Min_insert) simp_all
    also have "\<dots> = Min (insert (min acc (mf ! nat x ! nat y)) ?S)"
    proof (cases "?S = {}")
      case True
      then show ?thesis by simp
    next
      case False
      then show ?thesis using f by (simp add: min.assoc)
    qed
    finally show ?thesis by simp
  qed
  finally show ?case by simp
qed

text \<open>
  Claim C10.  When \<open>findAugmentingPath\<close> reports a path, \<open>augmentFlowAlongPath\<close> computes
  \<open>pathFlow\<close>, the minimum of \<open>INT_MAX\<close> and the snapshot capacities along the path, and
  does not use it: it applies \<open>updateResidualGraph\<close> to the consecutive pairs and goes on
  from the state that leaves.  The call returns; it commits one path more than the call
  from that state does, and ends in the same state.  In the state after the commit every
  consecutive pair \<open>(u, v)\<close> of the path has \<open>capacity[u][v]\<close> one less than before, and
  \<open>capacity[v][u]\<close> one more than before when that was below \<open>INT_MAX\<close>, whatever the
  capacities along the path are; no other entry has changed.  The paths the call commits
  after that one are committed in the same way, each along a path of positive capacity
  from the source to the sink.
\<close>

theorem augmentFlowAlongPath_commit:
  assumes "wf_FF ff" "in_range (graph ff) source" "in_range (graph ff) sink"
    and "findAugmentingPath ff [] source sink = Some (True, path, ff1)"
  shows "\<exists>g' n ff'.
           graph ff1 = graph ff \<and>
           update_loop ff1 path = (Inr (), ff1\<lparr>graph := g'\<rparr>) \<and>
           augmentFlowAlongPath (ff1\<lparr>graph := g'\<rparr>) [] source sink = Some (Inr n, ff') \<and>
           augmentFlowAlongPath ff [] source sink = Some (Inr (Suc n), ff') \<and>
           (augment_step source sink ^^ n) g' (graph ff') \<and>
           pathFlow_loop (maxFlow ff1) path INT_MAX =
             Min (insert INT_MAX ((\<lambda>(u, v). maxFlow ff1 ! nat u ! nat v) ` set (edges_of path))) \<and>
           2 \<le> length path \<and>
           (\<forall>k. Suc k < length path \<longrightarrow>
              capacity g' (path ! k) (path ! Suc k) =
                capacity (graph ff) (path ! k) (path ! Suc k) - 1 \<and>
              (capacity (graph ff) (path ! Suc k) (path ! k) < INT_MAX \<longrightarrow>
                 capacity g' (path ! Suc k) (path ! k) =
                   capacity (graph ff) (path ! Suc k) (path ! k) + 1)) \<and>
           (\<forall>i j. in_range (graph ff) i \<and> in_range (graph ff) j \<and>
                  (i, j) \<notin> set (edges_of path) \<and> (j, i) \<notin> set (edges_of path) \<longrightarrow>
                  capacity g' i j = capacity (graph ff) i j)"
proof -
  have ne: "source \<noteq> sink"
  proof
    assume "source = sink"
    with assms(4) show False by (simp add: findAugmentingPath_same)
  qed
  from findAugmentingPath_total [OF assms(1,2,3) ne] assms(4)
  have post: "dfs_post ff source sink True path ff1" by auto
  then have c: "path \<noteq> []" "hd path = source" "last path = sink"
    "successively (admissible ff1) path" and gg: "graph ff1 = graph ff" and wf1: "wf_FF ff1"
    unfolding dfs_post_def by blast+
  have wg: "wf_Graph (graph ff1)" using wf1 by (simp add: wf_FF_def)
  have rng: "\<forall>v \<in> set path. in_range (graph ff1) v"
    using chain_in_range [OF c(4) c(1)] c(2) assms(2) gg by simp
  have dist: "distinct path" by (rule chain_distinct [OF c(4)])
  have capp: "successively (\<lambda>a b. capacity (graph ff1) a b > 0) path"
    by (rule chain_capacity [OF c(4)])
  from update_loop_effect [OF wg rng] obtain g' where g':
    "update_loop ff1 path = (Inr (), ff1\<lparr>graph := g'\<rparr>)"
    "wf_Graph g'" "totalNodes g' = totalNodes (graph ff1)"
    "\<forall>i j. in_range (graph ff1) i \<and> in_range (graph ff1) j \<longrightarrow>
        capacity g' i j =
          wrap_int (capacity (graph ff1) i j - int (count_list (edges_of path) (i, j))
                                             + int (count_list (edges_of path) (j, i)))"
    by blast
  let ?ff2 = "ff1\<lparr>graph := g'\<rparr>"
  have len: "2 \<le> length path"
    using c(1,2,3) ne by (cases path; cases "tl path") auto
  have unfold: "augmentFlowAlongPath_try ff [] source sink 0 =
                augmentFlowAlongPath_try ?ff2 [] source sink 1"
    using assms(4) g'(1) by (subst augmentFlowAlongPath_try.simps) (simp add: Let_def)
  have ir: "in_range g' = in_range (graph ff)"
    by (rule in_range_cong) (simp add: g'(3) gg)
  have wf2: "wf_FF ?ff2" using wf1 g'(2,3) by (simp add: wf_FF_def)
  have src2: "in_range (graph ?ff2) source" and snk2: "in_range (graph ?ff2) sink"
    using assms(2,3) ir by simp_all
  from augment_total [OF wf2 src2 snk2] obtain n ff' where
    n: "\<And>pushed. augmentFlowAlongPath_try ?ff2 [] source sink pushed = Some (Inr (pushed + n), ff')"
    and steps: "(augment_step source sink ^^ n) g' (graph ff')"
    by auto
  have rest: "augmentFlowAlongPath ?ff2 [] source sink = Some (Inr n, ff')"
    using n [of 0] by (simp add: augmentFlowAlongPath_def catch_rethrow_def)
  have whole: "augmentFlowAlongPath ff [] source sink = Some (Inr (Suc n), ff')"
    using n [of 1] unfold by (simp add: augmentFlowAlongPath_def catch_rethrow_def)
  have pair: "capacity g' (path ! k) (path ! Suc k) =
                capacity (graph ff) (path ! k) (path ! Suc k) - 1 \<and>
              (capacity (graph ff) (path ! Suc k) (path ! k) < INT_MAX \<longrightarrow>
                 capacity g' (path ! Suc k) (path ! k) =
                   capacity (graph ff) (path ! Suc k) (path ! k) + 1)"
    if k: "Suc k < length path" for k
  proof -
    let ?u = "path ! k" and ?v = "path ! Suc k"
    have r: "in_range (graph ff1) ?u" "in_range (graph ff1) ?v"
      using rng k by (metis nth_mem Suc_lessD, metis nth_mem)
    note cnt = edges_of_distinct_count [OF dist k]
    from cnt(1) have "(?u, ?v) \<in> set (edges_of path)"
      using count_list_0_iff [of "edges_of path" "(?u, ?v)"] by simp
    from edges_of_positive [OF capp this] have pos: "capacity (graph ff1) ?u ?v > 0" .
    note uv = wf_Graph_int [OF wg r] and vu = wf_Graph_int [OF wg r(2,1)]
    from g'(4) r have
      "capacity g' ?u ?v = wrap_int (capacity (graph ff1) ?u ?v
          - int (count_list (edges_of path) (?u, ?v))
          + int (count_list (edges_of path) (?v, ?u)))"
      "capacity g' ?v ?u = wrap_int (capacity (graph ff1) ?v ?u
          - int (count_list (edges_of path) (?v, ?u))
          + int (count_list (edges_of path) (?u, ?v)))"
      by blast+
    then have w: "capacity g' ?u ?v = wrap_int (capacity (graph ff1) ?u ?v - 1)"
      "capacity g' ?v ?u = wrap_int (capacity (graph ff1) ?v ?u + 1)"
      unfolding cnt by simp_all
    have "wrap_int (capacity (graph ff1) ?u ?v - 1) = capacity (graph ff1) ?u ?v - 1"
      by (rule wrap_int_id) (use pos uv in \<open>simp_all add: INT_MIN_def\<close>)
    moreover have "wrap_int (capacity (graph ff1) ?v ?u + 1) = capacity (graph ff1) ?v ?u + 1"
      if "capacity (graph ff1) ?v ?u < INT_MAX"
      by (rule wrap_int_id) (use that vu in simp_all)
    ultimately show ?thesis using w unfolding gg by simp
  qed
  have other: "capacity g' i j = capacity (graph ff) i j"
    if h: "in_range (graph ff) i \<and> in_range (graph ff) j \<and>
        (i, j) \<notin> set (edges_of path) \<and> (j, i) \<notin> set (edges_of path)" for i j
  proof -
    from h have "count_list (edges_of path) (i, j) = 0" "count_list (edges_of path) (j, i) = 0"
      by (simp_all add: count_list_0_iff)
    with g'(4) h have "capacity g' i j = wrap_int (capacity (graph ff) i j)"
      unfolding gg by simp
    moreover have "wrap_int (capacity (graph ff) i j) = capacity (graph ff) i j"
      by (rule wrap_int_id) (use wf_Graph_int [OF wg, unfolded gg, of i j] h in simp_all)
    ultimately show ?thesis by simp
  qed
  show ?thesis
    using gg g'(1) rest whole steps len pair other
      pathFlow_loop_Min [of "maxFlow ff1" path INT_MAX]
    by (intro exI [of _ g'] exI [of _ n] exI [of _ ff']) blast
qed

lemma wide_graph_eval:
  "wide_graph =
     \<lparr>nodes = 2, totalNodes = 4,
      adjacencyMatrix = [[0, 2, 0, 0], [0, 0, 3, 0], [0, 0, 0, 2], [0, 0, 0, 0]]\<rparr>"
  by code_simp

theorem augmentFlowAlongPath_commit_witness:
  "wf_FF wide_engine \<and> in_range (graph wide_engine) 0 \<and> in_range (graph wide_engine) 3 \<and>
   findAugmentingPath wide_engine [] 0 3 = Some (True, [0, 1, 2, 3], wide_engine) \<and>
   pathFlow_loop (maxFlow wide_engine) [0, 1, 2, 3] INT_MAX = 2 \<and>
   capacity (graph wide_engine) 0 1 = 2 \<and> capacity (graph wide_engine) 1 2 = 3 \<and>
   map_option fst (augmentFlowAlongPath wide_engine [] 0 3) = Some (Inr 2) \<and>
   (\<exists>g' n ff'. update_loop wide_engine [0, 1, 2, 3] = (Inr (), wide_engine\<lparr>graph := g'\<rparr>) \<and>
         augmentFlowAlongPath wide_engine [] 0 3 = Some (Inr (Suc n), ff') \<and>
         capacity g' 0 1 = 1 \<and> capacity g' 1 0 = 1 \<and> capacity g' 1 2 = 2 \<and>
         capacity g' 2 3 = 1)"
proof -
  have g: "graph wide_engine = wide_graph" by (simp add: wide_engine_def FordFulkerson_new_def)
  have wf: "wf_FF wide_engine" by code_simp
  have r: "in_range (graph wide_engine) 0" "in_range (graph wide_engine) 3"
    unfolding g by (simp_all add: in_range_def wide_graph_eval)
  have f: "findAugmentingPath wide_engine [] 0 3 = Some (True, [0, 1, 2, 3], wide_engine)"
    by code_simp
  have pf: "pathFlow_loop (maxFlow wide_engine) [0, 1, 2, 3] INT_MAX = 2" by code_simp
  have a: "map_option fst (augmentFlowAlongPath wide_engine [] 0 3) = Some (Inr 2)" by code_simp
  have c: "capacity (graph wide_engine) 0 1 = 2" "capacity (graph wide_engine) 1 2 = 3"
    "capacity (graph wide_engine) 2 3 = 2" "capacity (graph wide_engine) 1 0 = 0"
    unfolding g by (simp_all add: wide_graph_eval)
  from augmentFlowAlongPath_commit [OF wf r f] obtain g' n ff' where g':
    "update_loop wide_engine [0, 1, 2, 3] = (Inr (), wide_engine\<lparr>graph := g'\<rparr>)"
    "augmentFlowAlongPath wide_engine [] 0 3 = Some (Inr (Suc n), ff')"
    "\<forall>k. Suc k < length [0, 1, 2, 3 :: int] \<longrightarrow>
        capacity g' ([0, 1, 2, 3] ! k) ([0, 1, 2, 3] ! Suc k) =
          capacity (graph wide_engine) ([0, 1, 2, 3] ! k) ([0, 1, 2, 3] ! Suc k) - 1 \<and>
        (capacity (graph wide_engine) ([0, 1, 2, 3] ! Suc k) ([0, 1, 2, 3] ! k) < INT_MAX \<longrightarrow>
         capacity g' ([0, 1, 2, 3] ! Suc k) ([0, 1, 2, 3] ! k) =
          capacity (graph wide_engine) ([0, 1, 2, 3] ! Suc k) ([0, 1, 2, 3] ! k) + 1)"
    by blast
  from g'(3) [rule_format, of 0] g'(3) [rule_format, of 1] g'(3) [rule_format, of 2] c
  have "capacity g' 0 1 = 1 \<and> capacity g' 1 0 = 1 \<and> capacity g' 1 2 = 2 \<and> capacity g' 2 3 = 1"
    by (simp add: numeral_2_eq_2 INT_MAX_def)
  with g'(1,2) have "\<exists>g' n ff'. update_loop wide_engine [0, 1, 2, 3] = (Inr (), wide_engine\<lparr>graph := g'\<rparr>) \<and>
         augmentFlowAlongPath wide_engine [] 0 3 = Some (Inr (Suc n), ff') \<and>
         capacity g' 0 1 = 1 \<and> capacity g' 1 0 = 1 \<and> capacity g' 1 2 = 2 \<and> capacity g' 2 3 = 1"
    by blast
  with wf r f pf c a show ?thesis by blast
qed

lemma saturated_engine_eval:
  "saturated_engine =
     \<lparr>depth = [0, 1], maxFlow = [[0, 1], [2147483647, 0]],
      graph = \<lparr>nodes = 0, totalNodes = 2, adjacencyMatrix = [[0, 1], [2147483647, 0]]\<rparr>\<rparr>"
  by code_simp

text \<open>
  On the two-node graph with \<open>capacity[0][1] = 1\<close> and \<open>capacity[1][0] = INT_MAX\<close>, the
  search from 0 to 1 reports the path 0, 1, and \<open>augmentFlowAlongPath\<close> commits it, the only
  one.  After the call \<open>capacity[0][1]\<close> is 0, one less, and \<open>capacity[1][0]\<close> is \<open>INT_MIN\<close>:
  it is not one more than before.
\<close>

theorem augmentFlowAlongPath_commit_counterexample:
  "wf_FF saturated_engine \<and>
   capacity (graph saturated_engine) 0 1 = 1 \<and>
   capacity (graph saturated_engine) 1 0 = 2147483647 \<and>
   findAugmentingPath saturated_engine [] 0 1 = Some (True, [0, 1], saturated_engine) \<and>
   map_option fst (augmentFlowAlongPath saturated_engine [] 0 1) = Some (Inr 1) \<and>
   map_option (\<lambda>r. capacity (graph (snd r)) 0 1) (augmentFlowAlongPath saturated_engine [] 0 1) =
     Some 0 \<and>
   map_option (\<lambda>r. capacity (graph (snd r)) 1 0) (augmentFlowAlongPath saturated_engine [] 0 1) =
     Some (- 2147483648)"
proof -
  have wf: "wf_FF saturated_engine" by code_simp
  have c: "capacity (graph saturated_engine) 0 1 = 1"
    "capacity (graph saturated_engine) 1 0 = 2147483647"
    by (simp_all add: saturated_engine_eval)
  have f: "findAugmentingPath saturated_engine [] 0 1 = Some (True, [0, 1], saturated_engine)"
    by code_simp
  have a: "map_option fst (augmentFlowAlongPath saturated_engine [] 0 1) = Some (Inr 1)"
    by code_simp
  have b: "map_option (\<lambda>r. capacity (graph (snd r)) 0 1)
             (augmentFlowAlongPath saturated_engine [] 0 1) = Some 0"
    by code_simp
  have d: "map_option (\<lambda>r. capacity (graph (snd r)) 1 0)
             (augmentFlowAlongPath saturated_engine [] 0 1) = Some (- 2147483648)"
    by code_simp
  from wf c f a b d show ?thesis by blast
qed

section \<open>Dead ends\<close>

text \<open>The loops of the code go through the states of \<open>phase_run\<close>.\<close>

lemma findAugmentingPath_loop_search:
  assumes "node \<noteq> sink"
    "findNextNodeInPath ff node path bt source = (True, node', path', bt', ff')" "node' \<noteq> sink"
  shows "findAugmentingPath_loop ff node path bt source sink =
         findAugmentingPath_loop ff' node' path' bt' source sink"
  using assms by (subst findAugmentingPath_loop.simps) simp

lemma findAugmentingPath_loop_commit:
  assumes "node \<noteq> sink"
    "findNextNodeInPath ff node path bt source = (True, sink, path', bt', ff')"
  shows "findAugmentingPath_loop ff node path bt source sink = Some (True, path' @ [sink], ff')"
  using assms by (subst findAugmentingPath_loop.simps) simp

lemma augmentFlowAlongPath_try_commit:
  assumes "findAugmentingPath ff [] source sink = Some (True, path, ff')"
    "update_loop ff' path = (Inr (), ff'')"
  shows "augmentFlowAlongPath_try ff [] source sink pushed =
         augmentFlowAlongPath_try ff'' [] source sink (pushed + 1)"
  using assms by (subst augmentFlowAlongPath_try.simps) (simp add: Let_def)

lemma updateResidualGraph_frame:
  assumes "updateResidualGraph ff u v = (r, ff')"
  shows "maxFlow ff' = maxFlow ff \<and> depth ff' = depth ff \<and>
         totalNodes (graph ff') = totalNodes (graph ff) \<and> nodes (graph ff') = nodes (graph ff) \<and>
         (wf_Graph (graph ff) \<longrightarrow> wf_Graph (graph ff'))"
proof (cases "u < 0 \<or> u \<ge> getNodes (graph ff) \<or> v < 0 \<or> v \<ge> getNodes (graph ff)")
  case True
  with assms have "ff' = ff"
    by (simp add: updateResidualGraph_def updateResidualGraph_try_def catch_rethrow_def)
  then show ?thesis by simp
next
  case False
  define m where "m = adjacencyMatrix (graph ff)"
  define m1 where "m1 = m[nat v := (m ! nat v)[nat u := wrap_int (m ! nat v ! nat u + 1)]]"
  define m2 where "m2 = m1[nat u := (m1 ! nat u)[nat v := wrap_int (m1 ! nat u ! nat v - 1)]]"
  from assms False have ff': "ff' = ff\<lparr>graph := (graph ff)\<lparr>adjacencyMatrix := m2\<rparr>\<rparr>"
    by (simp add: updateResidualGraph_def updateResidualGraph_try_def catch_rethrow_def Let_def
        m_def m1_def m2_def)
  have "wf_Graph (graph ff')" if wf: "wf_Graph (graph ff)"
  proof -
    have "square (totalNodes (graph ff)) m" using wf_Graph_square [OF wf] by (simp add: m_def)
    then have "square (totalNodes (graph ff)) m2"
      unfolding m2_def m1_def by (intro square_update)
    moreover have "int_matrix m" using wf_Graph_int_matrix [OF wf] by (simp add: m_def)
    then have "int_matrix m2"
      unfolding m2_def m1_def by (intro int_matrix_update wrap_int_range)
    ultimately show ?thesis unfolding ff' using wf by (simp add: wf_Graph_update)
  qed
  then show ?thesis by (simp add: ff')
qed

lemma update_loop_frame:
  "update_loop ff xs = (r, ff') \<Longrightarrow>
   maxFlow ff' = maxFlow ff \<and> depth ff' = depth ff \<and>
   totalNodes (graph ff') = totalNodes (graph ff) \<and> nodes (graph ff') = nodes (graph ff) \<and>
   (wf_Graph (graph ff) \<longrightarrow> wf_Graph (graph ff'))"
proof (induction xs arbitrary: ff rule: induct_list012)
  case 1
  then show ?case by simp
next
  case (2 x)
  then show ?case by simp
next
  case (3 u v rest)
  obtain r1 ff1 where s: "updateResidualGraph ff u v = (r1, ff1)" by (cases "updateResidualGraph ff u v")
  note f1 = updateResidualGraph_frame [OF s]
  show ?case
  proof (cases r1)
    case (Inl e)
    with s "3.prems" have "ff' = ff1" by simp
    with f1 show ?thesis by simp
  next
    case (Inr x)
    with s "3.prems" have "update_loop ff1 (v # rest) = (r, ff')" by simp
    from "3.IH"(2) [OF this] f1 show ?thesis by simp
  qed
qed

lemma findNext_dead_inv:
  assumes inv: "dead_inv source w (ff, node, path, bt)"
    and step: "findNextNodeInPath ff node path bt source = (ok, node', path', bt', ff')"
  shows "dead_inv source w (ff', node', path', bt')"
proof -
  from inv have wf: "wf_FF ff" and w: "in_range (graph ff) w" and src: "in_range (graph ff) source"
    and dead: "dead_column ff w" and nw: "node \<noteq> w" and pw: "w \<notin> set path"
    and nr: "in_range (graph ff) node" and pr: "\<forall>v \<in> set path. in_range (graph ff) v"
    unfolding dead_inv_def by simp_all
  let ?c = "search_chain node path bt"
  have cw: "w \<notin> set ?c" and cr: "\<forall>v \<in> set ?c. in_range (graph ff) v"
    using nw pw nr pr by (simp_all add: search_chain_def)
  show ?thesis
  proof (cases "find (\<lambda>neighbor. depth ff ! nat node + 1 = depth ff ! nat neighbor \<and>
                       maxFlow ff ! nat node ! nat neighbor > 0)
                (findAdjacentNodes (graph ff) node)")
    case (Some nb)
    from find_admissible [OF Some nr] have adm: "admissible ff node nb" .
    then have nbr: "in_range (graph ff) nb" and pos: "maxFlow ff ! nat node ! nat nb > 0"
      unfolding admissible_def by simp_all
    have "nb \<noteq> w"
    proof
      assume "nb = w"
      with pos dead nr show False unfolding dead_column_def by auto
    qed
    moreover from findNext_advance [OF Some, of path bt source] step
    have "node' = nb" "path' = ?c" "ff' = ff" by simp_all
    ultimately show ?thesis
      unfolding dead_inv_def using wf w src dead cw cr nbr by simp
  next
    case None
    then have na: "no_admissible ff node" by (simp add: no_admissible_def)
    show ?thesis
    proof (cases "node = source")
      case True
      from findNext_source [OF na True, of path bt] step
      have "node' = node" "path' = ?c" "ff' = ff" by simp_all
      then show ?thesis
        unfolding dead_inv_def using wf w src dead cw cr nw nr by simp
    next
      case False
      let ?b = "butlast ?c"
      from findNext_dead_end [OF na False, of path bt] step
      have r: "node' = (if ?b \<noteq> [] then last ?b else node)" "path' = ?b"
        "ff' = clearMaxFlowAtNode ff node" by simp_all
      have sub: "set ?b \<subseteq> set ?c" by (meson in_set_butlastD subsetI)
      have n0: "0 \<le> node" using nr by (simp add: in_range_def)
      have d': "dead_column ff' w"
        unfolding r(3) by (rule clearMaxFlowAtNode_dead_mono [OF wf w n0 dead])
      have wf': "wf_FF ff'" unfolding r(3) by (rule clearMaxFlowAtNode_wf [OF wf])
      have nn: "node' \<noteq> w \<and> in_range (graph ff) node'"
      proof (cases "?b = []")
        case True
        then show ?thesis using r(1) nw nr by simp
      next
        case False
        then have "last ?b \<in> set ?c" using sub last_in_set by blast
        then show ?thesis using False r(1) cw cr by auto
      qed
      show ?thesis
        unfolding dead_inv_def using wf' d' nn sub cw cr w src r(2,3) by auto
    qed
  qed
qed

lemma phase_run_dead_inv:
  assumes "phase_run source sink s s'" "w \<noteq> source" "dead_inv source w s"
  shows "dead_inv source w s'"
  using assms
proof (induction rule: phase_run.induct)
  case (here s)
  then show ?case by simp
next
  case (search s ff node path bt node' path' bt' ff')
  then show ?case using findNext_dead_inv by blast
next
  case (commit s ff node path bt path' bt' ff' ff'')
  from commit have "dead_inv source w (ff', sink, path', bt')"
    using findNext_dead_inv by blast
  then have wf: "wf_FF ff'" and w: "in_range (graph ff') w" and src: "in_range (graph ff') source"
    and dead: "dead_column ff' w"
    unfolding dead_inv_def by simp_all
  note f = update_loop_frame [OF commit.hyps(4)]
  have ir: "in_range (graph ff'') = in_range (graph ff')"
    by (rule in_range_cong) (simp add: f)
  have "wf_FF ff''" using wf f by (simp add: wf_FF_def)
  moreover have "dead_column ff'' w" using dead f by (simp add: dead_column_def ir)
  ultimately show ?case
    unfolding dead_inv_def using w src commit.prems(1) by (simp add: ir)
qed

text \<open>
  Claim C3.  Let the search be at a cursor that is not the source (the state is one a
  search from the source is in: the path, with the cursor at its end, leads from the
  source along admissible edges), and let the scan of the cursor's neighbours find none
  that is one level deeper with positive snapshot capacity.  Then \<open>findNextNodeInPath\<close>
  zeroes every entry of the snapshot into the cursor, pops the cursor off the path, makes
  the predecessor the cursor and sets the backtracking flag, and the next call does not
  append the predecessor again: its path is the popped one, or that one popped again.
  From then on, in every state the phase passes through, whatever the sink is, the node
  is not the cursor, is not on the path, and its column of the snapshot is zero: it is
  never entered again in this phase.  (The neighbours scanned are those of
  \<open>findAdjacentNodes\<close>; a cursor with no neighbour at all that is one level deeper with
  positive snapshot capacity is such a cursor.)
\<close>

theorem dead_end_abandoned:
  assumes "dfs_inv ff source node path bt" "node \<noteq> source" "no_admissible ff node"
  shows "findNextNodeInPath ff node path bt source =
           (True, last (butlast (search_chain node path bt)),
            butlast (search_chain node path bt), True, clearMaxFlowAtNode ff node) \<and>
         search_chain node path bt = butlast (search_chain node path bt) @ [node] \<and>
         butlast (search_chain node path bt) \<noteq> [] \<and>
         (\<forall>u. in_range (graph ff) u \<longrightarrow>
              maxFlow (clearMaxFlowAtNode ff node) ! nat u ! nat node = 0) \<and>
         (\<forall>ok n' p' b' f'.
            findNextNodeInPath (clearMaxFlowAtNode ff node)
              (last (butlast (search_chain node path bt)))
              (butlast (search_chain node path bt)) True source = (ok, n', p', b', f') \<longrightarrow>
            p' = butlast (search_chain node path bt) \<or>
            p' = butlast (butlast (search_chain node path bt))) \<and>
         (\<forall>ff' node' path' bt'.
            phase_run source sink
              (clearMaxFlowAtNode ff node, last (butlast (search_chain node path bt)),
               butlast (search_chain node path bt), True)
              (ff', node', path', bt') \<longrightarrow>
            node' \<noteq> node \<and> node \<notin> set path' \<and> dead_column ff' node)"
proof -
  let ?c = "search_chain node path bt"
  let ?b = "butlast ?c"
  let ?ff = "clearMaxFlowAtNode ff node"
  note de = dfs_inv_dead_end [OF assms(1,2)]
  note facts = dfs_inv_chain_facts [OF assms(1)]
  from assms(1) have c: "?c \<noteq> []" "last ?c = node" "wf_FF ff" "in_range (graph ff) source"
    by (simp_all add: dfs_inv_def)
  have step: "findNextNodeInPath ff node path bt source = (True, last ?b, ?b, True, ?ff)"
    using findNext_dead_end [OF assms(3,2), of path bt] de(1) by simp
  have split: "?c = ?b @ [node]" using c(1,2) by (metis append_butlast_last_id)
  have zero: "\<forall>u. in_range (graph ff) u \<longrightarrow> maxFlow ?ff ! nat u ! nat node = 0"
    using clearMaxFlowAtNode_dead [OF c(3) facts(4)] by (simp add: dead_column_def)
  have nxt: "p' = ?b \<or> p' = butlast ?b"
    if "findNextNodeInPath ?ff (last ?b) ?b True source = (ok, n', p', b', f')" for ok n' p' b' f'
    using that by (auto simp: findNextNodeInPath_def Let_def split: option.splits if_splits)
  have sub: "set ?b \<subseteq> set ?c" by (meson in_set_butlastD subsetI)
  have lb: "last ?b \<in> set ?b" using de(1) by simp
  have start: "dead_inv source node (?ff, last ?b, ?b, True)"
    unfolding dead_inv_def
    using clearMaxFlowAtNode_wf [OF c(3)] clearMaxFlowAtNode_dead [OF c(3) facts(4)]
      facts(2,4) c(4) de(2) sub lb
    by auto
  have later: "node' \<noteq> node \<and> node \<notin> set path' \<and> dead_column ff' node"
    if "phase_run source sink (?ff, last ?b, ?b, True) (ff', node', path', bt')"
    for ff' node' path' bt'
    using phase_run_dead_inv [OF that assms(2) start] by (simp add: dead_inv_def)
  from step split de(1) zero nxt later show ?thesis by blast
qed

lemma crossing_graph_eval:
  "crossing_graph =
     \<lparr>nodes = 4, totalNodes = 6,
      adjacencyMatrix =
        [[0, 1, 1, 0, 0, 0], [0, 0, 0, 1, 1, 0], [0, 0, 0, 1, 0, 0],
         [0, 0, 0, 0, 0, 1], [0, 0, 0, 0, 0, 1], [0, 0, 0, 0, 0, 0]]\<rparr>"
  by code_simp

lemma stuck_engine_eval:
  "stuck_engine =
     \<lparr>depth = [0, 1, 1, 2, 2, 3],
      maxFlow =
        [[0, 1, 1, 0, 0, 0], [0, 0, 0, 1, 1, 0], [0, 0, 0, 1, 0, 0],
         [0, 0, 0, 0, 0, 1], [0, 0, 0, 0, 0, 1], [0, 0, 0, 0, 0, 0]],
      graph =
        \<lparr>nodes = 4, totalNodes = 6,
         adjacencyMatrix =
           [[0, 0, 1, 0, 0, 0], [1, 0, 0, 0, 1, 0], [0, 0, 0, 1, 0, 0],
            [0, 1, 0, 0, 0, 0], [0, 0, 0, 0, 0, 1], [0, 0, 0, 1, 0, 0]]\<rparr>\<rparr>"
  by code_simp

theorem dead_end_abandoned_witness:
  "dfs_inv stuck_engine 0 3 [0, 2] False \<and> no_admissible stuck_engine 3 \<and>
   maxFlow stuck_engine ! 2 ! 3 = 1 \<and>
   findNextNodeInPath stuck_engine 3 [0, 2] False 0 =
     (True, 2, [0, 2], True, clearMaxFlowAtNode stuck_engine 3) \<and>
   maxFlow (clearMaxFlowAtNode stuck_engine 3) ! 2 ! 3 = 0 \<and>
   phase_run 0 5 (clearMaxFlowAtNode stuck_engine 3, 2, [0, 2], True)
     (clearMaxFlowAtNode (clearMaxFlowAtNode stuck_engine 3) 2, 0, [0], True) \<and>
   dead_column (clearMaxFlowAtNode (clearMaxFlowAtNode stuck_engine 3) 2) 3"
proof -
  have inv: "dfs_inv stuck_engine 0 3 [0, 2] False" by code_simp
  have na: "no_admissible stuck_engine 3" by code_simp
  have ne: "(3::int) \<noteq> 0" by simp
  have sc: "search_chain 3 [0, 2] False = [0, 2, 3]" by (simp add: search_chain_def)
  have m: "maxFlow stuck_engine ! 2 ! 3 = 1" by (simp add: stuck_engine_eval)
  have r: "in_range (graph stuck_engine) 2" by (simp add: in_range_def stuck_engine_eval)
  note t = dead_end_abandoned [OF inv ne na, of 5, unfolded sc]
  from t have a: "findNextNodeInPath stuck_engine 3 [0, 2] False 0 =
     (True, 2, [0, 2], True, clearMaxFlowAtNode stuck_engine 3)" by simp
  from t r have z: "maxFlow (clearMaxFlowAtNode stuck_engine 3) ! nat 2 ! nat 3 = 0" by blast
  have s2: "findNextNodeInPath (clearMaxFlowAtNode stuck_engine 3) 2 [0, 2] True 0 =
     (True, 0, [0], True, clearMaxFlowAtNode (clearMaxFlowAtNode stuck_engine 3) 2)"
    by code_simp
  have p: "phase_run 0 5 (clearMaxFlowAtNode stuck_engine 3, 2, [0, 2], True)
          (clearMaxFlowAtNode (clearMaxFlowAtNode stuck_engine 3) 2, 0, [0], True)"
    by (rule phase_run.search [OF phase_run.here _ s2]) simp_all
  from t have l: "\<forall>ff' node' path' bt'.
      phase_run 0 5 (clearMaxFlowAtNode stuck_engine 3, 2, [0, 2], True) (ff', node', path', bt') \<longrightarrow>
      node' \<noteq> 3 \<and> 3 \<notin> set path' \<and> dead_column ff' 3"
    by simp
  from l p have d: "dead_column (clearMaxFlowAtNode (clearMaxFlowAtNode stuck_engine 3) 2) 3"
    by blast
  from inv na m a z p d show ?thesis by simp
qed

section \<open>Edges of a path, counted per node\<close>

lemma count_list_Cons_add:
  "count_list (e # es) q = count_list es q + (if e = q then 1 else 0)"
  by simp

lemma sum_single_out:
  fixes x y v :: int
  assumes "finite S" "y \<in> S"
  shows "(\<Sum>b \<in> S. (if (x, y) = (v, b) then 1 else 0 :: int)) = (if x = v then 1 else 0)"
proof (cases "x = v")
  case True
  have "(\<Sum>b \<in> S. (if (x, y) = (v, b) then 1 else 0 :: int)) = (\<Sum>b \<in> S. if b = y then 1 else 0)"
    using True by (intro sum.cong refl) auto
  also have "\<dots> = 1" using assms by simp
  finally show ?thesis using True by simp
next
  case False
  have "(\<Sum>b \<in> S. (if (x, y) = (v, b) then 1 else 0 :: int)) = (\<Sum>b \<in> S. 0)"
    using False by (intro sum.cong refl) auto
  then show ?thesis using False by simp
qed

lemma sum_single_in:
  fixes x y v :: int
  assumes "finite S" "x \<in> S"
  shows "(\<Sum>b \<in> S. (if (x, y) = (b, v) then 1 else 0 :: int)) = (if y = v then 1 else 0)"
proof (cases "y = v")
  case True
  have "(\<Sum>b \<in> S. (if (x, y) = (b, v) then 1 else 0 :: int)) = (\<Sum>b \<in> S. if b = x then 1 else 0)"
    using True by (intro sum.cong refl) auto
  also have "\<dots> = 1" using assms by simp
  finally show ?thesis using True by simp
next
  case False
  have "(\<Sum>b \<in> S. (if (x, y) = (b, v) then 1 else 0 :: int)) = (\<Sum>b \<in> S. 0)"
    using False by (intro sum.cong refl) auto
  then show ?thesis using False by simp
qed

lemma edges_sum_out:
  assumes "finite S" "set p \<subseteq> S"
  shows "(\<Sum>b \<in> S. int (count_list (edges_of p) (v, b))) = int (count_list (butlast p) v)"
  using assms(2)
proof (induction p rule: induct_list012)
  case 1
  then show ?case by simp
next
  case (2 x)
  then show ?case by simp
next
  case (3 x y zs)
  have y: "y \<in> S" and sub: "set (y # zs) \<subseteq> S" using 3(3) by simp_all
  have "(\<Sum>b \<in> S. int (count_list (edges_of (x # y # zs)) (v, b)))
      = (\<Sum>b \<in> S. int (count_list (edges_of (y # zs)) (v, b)) + (if (x, y) = (v, b) then 1 else 0))"
    by (intro sum.cong refl) (simp del: prod.inject)
  also have "\<dots> = (\<Sum>b \<in> S. int (count_list (edges_of (y # zs)) (v, b)))
                 + (\<Sum>b \<in> S. (if (x, y) = (v, b) then 1 else 0))"
    by (rule sum.distrib)
  also have "\<dots> = int (count_list (butlast (y # zs)) v) + (if x = v then 1 else 0)"
    using 3(2) [OF sub] sum_single_out [OF assms(1) y, of x v] by simp
  finally show ?case by simp
qed

lemma edges_sum_in:
  assumes "finite S" "set p \<subseteq> S"
  shows "(\<Sum>b \<in> S. int (count_list (edges_of p) (b, v))) = int (count_list (tl p) v)"
  using assms(2)
proof (induction p rule: induct_list012)
  case 1
  then show ?case by simp
next
  case (2 x)
  then show ?case by simp
next
  case (3 x y zs)
  have x: "x \<in> S" and sub: "set (y # zs) \<subseteq> S" using 3(3) by simp_all
  have "(\<Sum>b \<in> S. int (count_list (edges_of (x # y # zs)) (b, v)))
      = (\<Sum>b \<in> S. int (count_list (edges_of (y # zs)) (b, v)) + (if (x, y) = (b, v) then 1 else 0))"
    by (intro sum.cong refl) (simp del: prod.inject)
  also have "\<dots> = (\<Sum>b \<in> S. int (count_list (edges_of (y # zs)) (b, v)))
                 + (\<Sum>b \<in> S. (if (x, y) = (b, v) then 1 else 0))"
    by (rule sum.distrib)
  also have "\<dots> = int (count_list (tl (y # zs)) v) + (if y = v then 1 else 0)"
    using 3(2) [OF sub] sum_single_in [OF assms(1) x, of y v] by simp
  finally show ?case by simp
qed

lemma count_internal:
  assumes "v \<noteq> hd p" "v \<noteq> last p"
  shows "count_list (butlast p) v = count_list (tl p) v"
proof (cases p)
  case Nil
  then show ?thesis by simp
next
  case (Cons x xs)
  then have ne: "p \<noteq> []" by simp
  have "count_list (butlast p @ [last p]) v = count_list (butlast p) v"
    using assms(2) by (simp only: count_list_append) simp
  then have a: "count_list p v = count_list (butlast p) v"
    by (simp only: append_butlast_last_id [OF ne])
  have "count_list (hd p # tl p) v = count_list (tl p) v"
    using assms(1) by simp
  then have b: "count_list p v = count_list (tl p) v"
    by (simp only: list.collapse [OF ne])
  from a b show ?thesis by simp
qed

lemma map_fst_edges_of: "map fst (edges_of p) = butlast p"
  by (induction p rule: induct_list012) simp_all

lemma distinct_edges_of: "distinct p \<Longrightarrow> distinct (edges_of p)"
proof -
  assume "distinct p"
  then have "distinct (butlast p)" by (rule distinct_butlast)
  then have "distinct (map fst (edges_of p))" by (simp only: map_fst_edges_of)
  then show ?thesis by (rule distinct_map [THEN iffD1, THEN conjunct1])
qed

lemma distinct_count_le: "distinct xs \<Longrightarrow> count_list xs e \<le> 1"
  by (induction xs) auto

lemma edges_of_count_le:
  "distinct p \<Longrightarrow> count_list (edges_of p) e \<le> 1"
  by (rule distinct_count_le) (rule distinct_edges_of)

section \<open>One augmentation as a unit flow along a path\<close>

text \<open>
  When every entry is strictly between \<open>INT_MIN\<close> and \<open>INT_MAX\<close>, committing a path does
  not wrap around.
\<close>

lemma augment_step_exact:
  assumes st: "augment_step s t g g'"
    and bd: "\<forall>i j. in_range g i \<and> in_range g j \<longrightarrow>
               INT_MIN < capacity g i j \<and> capacity g i j < INT_MAX"
  obtains p where "p \<noteq> []" "hd p = s" "last p = t" "distinct p"
    "\<forall>v \<in> set p. in_range g v" "successively (\<lambda>a b. capacity g a b > 0) p"
    "totalNodes g' = totalNodes g"
    "\<forall>i j. in_range g i \<and> in_range g j \<longrightarrow>
        capacity g' i j = capacity g i j - int (count_list (edges_of p) (i, j))
                                         + int (count_list (edges_of p) (j, i))"
proof -
  from st obtain p where p: "p \<noteq> []" "hd p = s" "last p = t" "distinct p"
      "\<forall>v \<in> set p. in_range g v" "successively (\<lambda>a b. capacity g a b > 0) p"
      "totalNodes g' = totalNodes g"
    and cap: "\<forall>i j. in_range g i \<and> in_range g j \<longrightarrow>
        capacity g' i j = wrap_int (capacity g i j - int (count_list (edges_of p) (i, j))
                                                   + int (count_list (edges_of p) (j, i)))"
    unfolding augment_step_def by blast
  have "capacity g' i j = capacity g i j - int (count_list (edges_of p) (i, j))
                                         + int (count_list (edges_of p) (j, i))"
    if r: "in_range g i \<and> in_range g j" for i j
  proof -
    have "count_list (edges_of p) (i, j) \<le> 1" "count_list (edges_of p) (j, i) \<le> 1"
      using p(4) by (rule edges_of_count_le)+
    moreover from bd r have "INT_MIN < capacity g i j" "capacity g i j < INT_MAX" by blast+
    ultimately have "wrap_int (capacity g i j - int (count_list (edges_of p) (i, j))
                                             + int (count_list (edges_of p) (j, i)))
        = capacity g i j - int (count_list (edges_of p) (i, j))
                         + int (count_list (edges_of p) (j, i))"
      by (intro wrap_int_id) linarith+
    with cap r show ?thesis by simp
  qed
  then show thesis using p by (intro that [of p]) blast+
qed

lemma augment_step_pairsum:
  assumes st: "augment_step s t g g'"
    and bd: "\<forall>i j. in_range g i \<and> in_range g j \<longrightarrow>
               INT_MIN < capacity g i j \<and> capacity g i j < INT_MAX"
    and r: "in_range g a" "in_range g b"
  shows "capacity g' a b + capacity g' b a = capacity g a b + capacity g b a"
proof -
  from augment_step_exact [OF st bd] obtain p where
    "\<forall>i j. in_range g i \<and> in_range g j \<longrightarrow>
        capacity g' i j = capacity g i j - int (count_list (edges_of p) (i, j))
                                         + int (count_list (edges_of p) (j, i))"
    by blast
  with r show ?thesis by simp
qed

lemma augment_step_nonneg:
  assumes st: "augment_step s t g g'"
    and bd: "\<forall>i j. in_range g i \<and> in_range g j \<longrightarrow>
               INT_MIN < capacity g i j \<and> capacity g i j < INT_MAX"
    and nn: "0 \<le> capacity g a b"
    and r: "in_range g a" "in_range g b"
  shows "0 \<le> capacity g' a b"
proof -
  from augment_step_exact [OF st bd] obtain p where
    p: "distinct p" "successively (\<lambda>a b. capacity g a b > 0) p"
    and capp: "\<forall>i j. in_range g i \<and> in_range g j \<longrightarrow>
        capacity g' i j = capacity g i j - int (count_list (edges_of p) (i, j))
                                         + int (count_list (edges_of p) (j, i))"
    by blast
  from capp r have cap: "capacity g' a b = capacity g a b - int (count_list (edges_of p) (a, b))
                                              + int (count_list (edges_of p) (b, a))"
    by blast
  have le: "count_list (edges_of p) (a, b) \<le> 1" using p(1) by (rule edges_of_count_le)
  show ?thesis
  proof (cases "(a, b) \<in> set (edges_of p)")
    case True
    then have "capacity g a b > 0" using edges_of_positive [OF p(2)] by blast
    then show ?thesis using cap le by linarith
  next
    case False
    then have "count_list (edges_of p) (a, b) = 0" by simp
    then show ?thesis using cap nn by linarith
  qed
qed

lemma augment_step_rowsum:
  assumes st: "augment_step s t g g'"
    and bd: "\<forall>i j. in_range g i \<and> in_range g j \<longrightarrow>
               INT_MIN < capacity g i j \<and> capacity g i j < INT_MAX"
    and v: "in_range g v" "v \<noteq> s" "v \<noteq> t"
  shows "rowsum g' v = rowsum g v"
proof -
  from augment_step_exact [OF st bd] obtain p where
    p: "hd p = s" "last p = t" "\<forall>v \<in> set p. in_range g v"
    and tn: "totalNodes g' = totalNodes g"
    and cap: "\<forall>i j. in_range g i \<and> in_range g j \<longrightarrow>
             capacity g' i j = capacity g i j - int (count_list (edges_of p) (i, j))
                                              + int (count_list (edges_of p) (j, i))"
    by blast
  let ?S = "{0..totalNodes g - 1}"
  have fin: "finite ?S" by simp
  have sub: "set p \<subseteq> ?S" using p(3) unfolding in_range_def by auto
  have "rowsum g' v = (\<Sum>b \<in> ?S. capacity g v b - int (count_list (edges_of p) (v, b))
                                              + int (count_list (edges_of p) (b, v)))"
    unfolding rowsum_def tn
    using cap v(1) by (intro sum.cong refl) (simp add: in_range_def)
  also have "\<dots> = (\<Sum>b \<in> ?S. capacity g v b) - (\<Sum>b \<in> ?S. int (count_list (edges_of p) (v, b)))
                                              + (\<Sum>b \<in> ?S. int (count_list (edges_of p) (b, v)))"
    by (simp only: sum.distrib sum_subtractf)
  also have "\<dots> = rowsum g v - int (count_list (butlast p) v) + int (count_list (tl p) v)"
    unfolding rowsum_def
    by (simp only: edges_sum_out [OF fin sub] edges_sum_in [OF fin sub])
  also have "\<dots> = rowsum g v"
    using count_internal [of v p] v(2,3) p(1,2) by simp
  finally show ?thesis .
qed

lemma augment_step_source_row:
  assumes st: "augment_step s t g g'"
    and bd: "\<forall>i j. in_range g i \<and> in_range g j \<longrightarrow>
               INT_MIN < capacity g i j \<and> capacity g i j < INT_MAX"
    and ne: "s \<noteq> t" and src: "in_range g s"
  shows "\<exists>x. in_range g x \<and> capacity g s x > 0 \<and>
             (\<forall>v. in_range g v \<longrightarrow> capacity g' s v = capacity g s v - (if v = x then 1 else 0))"
proof -
  from augment_step_exact [OF st bd] obtain p where
    p: "p \<noteq> []" "hd p = s" "last p = t" "distinct p"
      "successively (\<lambda>a b. capacity g a b > 0) p" "\<forall>v \<in> set p. in_range g v"
    and cap: "\<forall>i j. in_range g i \<and> in_range g j \<longrightarrow>
             capacity g' i j = capacity g i j - int (count_list (edges_of p) (i, j))
                                              + int (count_list (edges_of p) (j, i))"
    by blast
  from p(1,2,3) ne obtain x rest where pe: "p = s # x # rest"
    by (cases p; cases "tl p") auto
  have x: "in_range g x" "capacity g s x > 0"
    using p(5,6) unfolding pe by simp_all
  have row: "capacity g' s v = capacity g s v - (if v = x then 1 else 0)"
    if "in_range g v" for v
    using cap src that edges_of_head [OF p(4) [unfolded pe], of v]
    unfolding pe by simp
  show ?thesis using x row by blast
qed

section \<open>The shape of a bipartite network\<close>

lemma sdiv_half: "0 \<le> n \<Longrightarrow> (n :: int) sdiv 2 = n div 2"
  by (simp add: signed_divide_int_def sgn_if)

lemma sides:
  assumes "wf_Graph g"
  shows "set (left_nodes g) = {1..nodes g div 2}"
    and "set (right_nodes g) = {nodes g div 2 + 1..nodes g}"
    and "0 \<le> nodes g div 2" and "nodes g div 2 \<le> nodes g"
    and "totalNodes g = nodes g + 2"
    and "in_range g a \<longleftrightarrow> 0 \<le> a \<and> a \<le> nodes g + 1"
proof -
  from assms have n: "0 \<le> nodes g" "totalNodes g = nodes g + 2"
    unfolding wf_Graph_def by simp_all
  show "set (left_nodes g) = {1..nodes g div 2}"
    unfolding left_nodes_def using n(1) by (simp add: sdiv_half)
  show "set (right_nodes g) = {nodes g div 2 + 1..nodes g}"
    unfolding right_nodes_def using n(1) by (simp add: sdiv_half)
  show "0 \<le> nodes g div 2" "nodes g div 2 \<le> nodes g" using n(1) by simp_all
  show "totalNodes g = nodes g + 2" by (rule n(2))
  show "in_range g a \<longleftrightarrow> 0 \<le> a \<and> a \<le> nodes g + 1"
    unfolding in_range_def n(2) by auto
qed

lemma wired_in_range:
  assumes "wf_Graph g" "wired g a b"
  shows "in_range g a" "in_range g b"
  using assms(2) sides [OF assms(1)] unfolding wired_def by auto

lemma wired_asym:
  assumes "wf_Graph g" "wired g a b"
  shows "\<not> wired g b a"
  using assms(2) sides(1-4) [OF assms(1)] unfolding wired_def by auto

lemma network_zero:
  assumes "bipartite_network g" "in_range g a" "in_range g b" "\<not> wired g a b"
  shows "capacity g a b = 0"
proof -
  from assms(1) have wf: "wf_Graph g" unfolding bipartite_network_def by simp
  have "a \<in> set [0..nodes g + 1]" "b \<in> set [0..nodes g + 1]"
    using assms(2,3) sides(6) [OF wf] by simp_all
  then show ?thesis using assms(1,4) unfolding bipartite_network_def by blast
qed

lemma network_unit:
  assumes "bipartite_network g" "in_range g a" "in_range g b"
  shows "capacity g a b = 0 \<or> capacity g a b = 1"
proof (cases "wired g a b")
  case True
  then show ?thesis using assms(1) unfolding bipartite_network_def wired_def by blast
next
  case False
  then show ?thesis using network_zero [OF assms] by simp
qed

lemma network_pair:
  assumes bn: "bipartite_network g" and r: "in_range g a" "in_range g b"
  shows "0 \<le> capacity g a b + capacity g b a" "capacity g a b + capacity g b a \<le> 1"
    and "\<not> wired g a b \<Longrightarrow> \<not> wired g b a \<Longrightarrow> capacity g a b + capacity g b a = 0"
proof -
  from bn have wf: "wf_Graph g" unfolding bipartite_network_def by simp
  note u = network_unit [OF bn r] network_unit [OF bn r(2,1)]
  show "0 \<le> capacity g a b + capacity g b a" using u by auto
  show "capacity g a b + capacity g b a \<le> 1"
  proof (cases "wired g a b")
    case True
    then have "capacity g b a = 0"
      using network_zero [OF bn r(2,1)] wired_asym [OF wf] by blast
    then show ?thesis using u by auto
  next
    case False
    then have "capacity g a b = 0" using network_zero [OF bn r] by blast
    then show ?thesis using u by auto
  qed
  show "capacity g a b + capacity g b a = 0" if "\<not> wired g a b" "\<not> wired g b a"
    using network_zero [OF bn r that(1)] network_zero [OF bn r(2,1) that(2)] by simp
qed

section \<open>The residual matrix of a flow\<close>

lemma flow_inv_init:
  assumes "bipartite_network g"
  shows "flow_inv g 0 g"
proof -
  from assms have wf: "wf_Graph g" unfolding bipartite_network_def by simp
  have nn: "0 \<le> capacity g a b" if "in_range g a" "in_range g b" for a b
    using network_unit [OF assms that] by auto
  have "{i \<in> set (left_nodes g). capacity g 0 i = 0} = {}"
    using assms unfolding bipartite_network_def by auto
  then have "card {i \<in> set (left_nodes g). capacity g 0 i = 0} = 0" by simp
  then show ?thesis unfolding flow_inv_def using wf nn by simp
qed

lemma flow_inv_facts:
  assumes bn: "bipartite_network g0" and fi: "flow_inv g0 k g"
    and r: "in_range g0 a" "in_range g0 b"
  shows "0 \<le> capacity g a b" "capacity g a b \<le> 1"
    and "capacity g a b + capacity g b a = capacity g0 a b + capacity g0 b a"
    and "\<not> wired g0 a b \<Longrightarrow> \<not> wired g0 b a \<Longrightarrow> capacity g a b = 0"
    and "wired g0 a b \<Longrightarrow> capacity g a b + capacity g b a = capacity g0 a b"
proof -
  from bn have wf: "wf_Graph g0" unfolding bipartite_network_def by simp
  from fi r have a: "0 \<le> capacity g a b" "0 \<le> capacity g b a"
    and s: "capacity g a b + capacity g b a = capacity g0 a b + capacity g0 b a"
    unfolding flow_inv_def by blast+
  show "0 \<le> capacity g a b" by (rule a(1))
  show "capacity g a b \<le> 1" using a s network_pair(2) [OF bn r] by linarith
  show "capacity g a b + capacity g b a = capacity g0 a b + capacity g0 b a" by (rule s)
  show "capacity g a b = 0" if "\<not> wired g0 a b" "\<not> wired g0 b a"
    using a s network_pair(3) [OF bn r that] by linarith
  show "capacity g a b + capacity g b a = capacity g0 a b" if "wired g0 a b"
    using s network_zero [OF bn r(2,1)] wired_asym [OF wf that] by simp
qed

lemma flow_inv_step:
  assumes bn: "bipartite_network g0" and fi: "flow_inv g0 k g"
    and st: "augment_step 0 (nodes g0 + 1) g g'"
  shows "flow_inv g0 (Suc k) g'"
proof -
  from bn have wf0: "wf_Graph g0" unfolding bipartite_network_def by simp
  note sd = sides [OF wf0]
  from fi have tn: "totalNodes g = totalNodes g0" and nd: "nodes g = nodes g0"
    unfolding flow_inv_def by simp_all
  have ir: "in_range g = in_range g0" by (rule in_range_cong [OF tn])
  from st have g': "wf_Graph g'" "nodes g' = nodes g" "totalNodes g' = totalNodes g"
    unfolding augment_step_def by blast+
  have bd: "\<forall>i j. in_range g i \<and> in_range g j \<longrightarrow>
               INT_MIN < capacity g i j \<and> capacity g i j < INT_MAX"
  proof (intro allI impI)
    fix i j assume "in_range g i \<and> in_range g j"
    then have r: "in_range g0 i" "in_range g0 j" by (simp_all add: ir)
    from flow_inv_facts(1,2) [OF bn fi r]
    show "INT_MIN < capacity g i j \<and> capacity g i j < INT_MAX"
      by (simp add: INT_MIN_def INT_MAX_def)
  qed
  have pair: "0 \<le> capacity g' a b \<and>
              capacity g' a b + capacity g' b a = capacity g0 a b + capacity g0 b a"
    if r: "in_range g0 a" "in_range g0 b" for a b
  proof -
    have "0 \<le> capacity g' a b"
      by (rule augment_step_nonneg [OF st bd flow_inv_facts(1) [OF bn fi r]])
         (simp_all add: ir r)
    moreover have "capacity g' a b + capacity g' b a = capacity g a b + capacity g b a"
      by (rule augment_step_pairsum [OF st bd]) (simp_all add: ir r)
    ultimately show ?thesis using flow_inv_facts(3) [OF bn fi r] by simp
  qed
  have row: "rowsum g' v = rowsum g0 v" if v: "1 \<le> v \<and> v \<le> nodes g0" for v
  proof -
    have "rowsum g' v = rowsum g v"
      by (rule augment_step_rowsum [OF st bd]) (use v sd(6) in \<open>simp_all add: ir\<close>)
    then show ?thesis using fi v unfolding flow_inv_def by simp
  qed
  have src: "in_range g 0" "(0 :: int) \<noteq> nodes g0 + 1"
    using wf0 sd(6) [of 0] unfolding wf_Graph_def by (simp_all add: ir)
  from augment_step_source_row [OF st bd src(2,1)] obtain x where
    x: "in_range g x" "capacity g 0 x > 0"
      "\<And>v. in_range g v \<Longrightarrow> capacity g' 0 v = capacity g 0 v - (if v = x then 1 else 0)"
    by blast
  have r0: "in_range g0 0" and rx: "in_range g0 x" using src(1) x(1) by (simp_all add: ir)
  have xl: "x \<in> set (left_nodes g0)"
  proof (rule ccontr)
    assume n: "x \<notin> set (left_nodes g0)"
    then have "\<not> wired g0 0 x" "\<not> wired g0 x 0"
      using sd(1-4) unfolding wired_def by auto
    from flow_inv_facts(4) [OF bn fi r0 rx this] x(2) show False by simp
  qed
  have x1: "capacity g 0 x = 1"
    using x(2) flow_inv_facts(2) [OF bn fi r0 rx] by simp
  have lr: "in_range g i" if "i \<in> set (left_nodes g0)" for i
    using that sd(1,3,4) sd(6) [of i] by (simp add: ir)
  have "{i \<in> set (left_nodes g0). capacity g' 0 i = 0}
      = insert x {i \<in> set (left_nodes g0). capacity g 0 i = 0}"
    using xl x1 x(3) [OF lr] by auto
  moreover have "card (insert x {i \<in> set (left_nodes g0). capacity g 0 i = 0})
      = Suc (card {i \<in> set (left_nodes g0). capacity g 0 i = 0})"
    by (rule card_insert_disjoint) (use x1 in simp_all)
  ultimately have "card {i \<in> set (left_nodes g0). capacity g' 0 i = 0}
      = Suc (card {i \<in> set (left_nodes g0). capacity g 0 i = 0})"
    by simp
  then have c: "card {i \<in> set (left_nodes g0). capacity g' 0 i = 0} = Suc k"
    using fi unfolding flow_inv_def by simp
  show ?thesis
    unfolding flow_inv_def using g' nd tn pair row c by simp
qed

lemma flow_inv_steps:
  assumes bn: "bipartite_network g0"
  shows "(augment_step 0 (nodes g0 + 1) ^^ k) g0 g \<Longrightarrow> flow_inv g0 k g"
proof (induction k arbitrary: g)
  case 0
  then show ?case using flow_inv_init [OF bn] by simp
next
  case (Suc k)
  then obtain h where h: "(augment_step 0 (nodes g0 + 1) ^^ k) g0 h"
    "augment_step 0 (nodes g0 + 1) h g"
    by auto
  show ?case by (rule flow_inv_step [OF bn Suc.IH [OF h(1)] h(2)])
qed

section \<open>Sums of unit entries\<close>

lemma sum_two_le:
  fixes f :: "int \<Rightarrow> int"
  assumes "finite S" "a \<in> S" "b \<in> S" "a \<noteq> b" "\<forall>x \<in> S. 0 \<le> f x"
  shows "f a + f b \<le> sum f S"
proof -
  have "sum f S = f a + sum f (S - {a})" using assms(1,2) by (rule sum.remove)
  moreover have "f b \<le> sum f (S - {a})"
    by (rule member_le_sum) (use assms in auto)
  ultimately show ?thesis by simp
qed

lemma sum_pos_member:
  fixes f :: "int \<Rightarrow> int"
  assumes "sum f S \<noteq> 0"
  shows "\<exists>x \<in> S. f x \<noteq> 0"
proof (rule ccontr)
  assume "\<not> (\<exists>x \<in> S. f x \<noteq> 0)"
  then have "sum f S = 0" by (intro sum.neutral) blast
  with assms show False by simp
qed

section \<open>Rows of left and right nodes\<close>

lemma left_in_range:
  assumes "wf_Graph g" "i \<in> set (left_nodes g)"
  shows "in_range g i" "1 \<le> i" "i \<le> nodes g" "i \<noteq> 0" "i \<noteq> nodes g + 1"
    "i \<notin> set (right_nodes g)"
  using assms(2) sides(1-4) [OF assms(1)] sides(6) [OF assms(1), of i] by auto

lemma right_in_range:
  assumes "wf_Graph g" "j \<in> set (right_nodes g)"
  shows "in_range g j" "1 \<le> j" "j \<le> nodes g" "j \<noteq> 0" "j \<noteq> nodes g + 1"
    "j \<notin> set (left_nodes g)"
  using assms(2) sides(1-4) [OF assms(1)] sides(6) [OF assms(1), of j] by auto

lemma ends_in_range:
  assumes "wf_Graph g"
  shows "in_range g 0" "in_range g (nodes g + 1)"
  using assms sides(6) [OF assms] unfolding wf_Graph_def by simp_all

lemma rowsum_left:
  assumes bn: "bipartite_network g0" and fi: "flow_inv g0 k g"
    and i: "i \<in> set (left_nodes g0)"
  shows "rowsum g i = capacity g i 0 + (\<Sum>j \<in> set (right_nodes g0). capacity g i j)"
proof -
  from bn have wf: "wf_Graph g0" unfolding bipartite_network_def by simp
  note sd = sides [OF wf]
  note li = left_in_range [OF wf i]
  from fi have tn: "totalNodes g = totalNodes g0" unfolding flow_inv_def by simp
  let ?S = "{0..totalNodes g - 1}"
  let ?T = "insert 0 (set (right_nodes g0))"
  have sub: "?T \<subseteq> ?S" using sd(2-5) unfolding tn by auto
  have zero: "\<forall>b \<in> ?S - ?T. capacity g i b = 0"
  proof
    fix b assume b: "b \<in> ?S - ?T"
    then have rb: "in_range g0 b" unfolding tn in_range_def by auto
    have "\<not> wired g0 i b" "\<not> wired g0 b i"
      using b li(4,5,6) unfolding wired_def by auto
    then show "capacity g i b = 0" by (rule flow_inv_facts(4) [OF bn fi li(1) rb])
  qed
  have "rowsum g i = sum (capacity g i) ?T"
    unfolding rowsum_def by (rule sum.mono_neutral_right [OF _ sub zero]) simp
  also have "\<dots> = capacity g i 0 + sum (capacity g i) (set (right_nodes g0))"
    by (rule sum.insert) (use sd(2,3) in auto)
  finally show ?thesis .
qed

lemma rowsum_right:
  assumes bn: "bipartite_network g0" and fi: "flow_inv g0 k g"
    and j: "j \<in> set (right_nodes g0)"
  shows "rowsum g j = capacity g j (nodes g0 + 1) + (\<Sum>i \<in> set (left_nodes g0). capacity g j i)"
proof -
  from bn have wf: "wf_Graph g0" unfolding bipartite_network_def by simp
  note sd = sides [OF wf]
  note rj = right_in_range [OF wf j]
  from fi have tn: "totalNodes g = totalNodes g0" unfolding flow_inv_def by simp
  let ?S = "{0..totalNodes g - 1}"
  let ?T = "insert (nodes g0 + 1) (set (left_nodes g0))"
  have sub: "?T \<subseteq> ?S" using sd(1-5) unfolding tn by auto
  have zero: "\<forall>b \<in> ?S - ?T. capacity g j b = 0"
  proof
    fix b assume b: "b \<in> ?S - ?T"
    then have rb: "in_range g0 b" unfolding tn in_range_def by auto
    have "\<not> wired g0 j b" "\<not> wired g0 b j"
      using b rj(4,5,6) unfolding wired_def by auto
    then show "capacity g j b = 0" by (rule flow_inv_facts(4) [OF bn fi rj(1) rb])
  qed
  have "rowsum g j = sum (capacity g j) ?T"
    unfolding rowsum_def by (rule sum.mono_neutral_right [OF _ sub zero]) simp
  also have "\<dots> = capacity g j (nodes g0 + 1) + sum (capacity g j) (set (left_nodes g0))"
    by (rule sum.insert) (use sd(1,4) in auto)
  finally show ?thesis .
qed

lemma left_balance:
  assumes bn: "bipartite_network g0" and fi: "flow_inv g0 k g"
    and i: "i \<in> set (left_nodes g0)"
  shows "capacity g i 0 = (\<Sum>j \<in> set (right_nodes g0). capacity g j i)"
    and "capacity g 0 i + capacity g i 0 = 1"
proof -
  from bn have wf: "wf_Graph g0" unfolding bipartite_network_def by simp
  note li = left_in_range [OF wf i]
  note r0 = ends_in_range(1) [OF wf]
  have w0: "wired g0 0 i" using i unfolding wired_def by simp
  have c0: "capacity g0 0 i = 1" using bn i unfolding bipartite_network_def by blast
  show "capacity g 0 i + capacity g i 0 = 1"
    using flow_inv_facts(5) [OF bn fi r0 li(1) w0] c0 by simp
  have rs: "rowsum g i = rowsum g0 i" using fi li(2,3) unfolding flow_inv_def by blast
  have z: "capacity g0 i 0 = 0"
    by (rule network_zero [OF bn li(1) r0]) (use li(4,5,6) sides(2,3) [OF wf] in \<open>auto simp: wired_def\<close>)
  have e: "capacity g i j = capacity g0 i j - capacity g j i"
    if j: "j \<in> set (right_nodes g0)" for j
  proof -
    have "wired g0 i j" using i j unfolding wired_def by simp
    from flow_inv_facts(5) [OF bn fi li(1) right_in_range(1) [OF wf j] this]
    show ?thesis by simp
  qed
  have "(\<Sum>j \<in> set (right_nodes g0). capacity g i j)
      = (\<Sum>j \<in> set (right_nodes g0). capacity g0 i j - capacity g j i)"
    by (rule sum.cong [OF refl]) (rule e)
  also have "\<dots> = (\<Sum>j \<in> set (right_nodes g0). capacity g0 i j)
                 - (\<Sum>j \<in> set (right_nodes g0). capacity g j i)"
    by (rule sum_subtractf)
  finally have s: "(\<Sum>j \<in> set (right_nodes g0). capacity g i j)
      = (\<Sum>j \<in> set (right_nodes g0). capacity g0 i j)
        - (\<Sum>j \<in> set (right_nodes g0). capacity g j i)" .
  from rs rowsum_left [OF bn fi i] rowsum_left [OF bn flow_inv_init [OF bn] i] z s
  show "capacity g i 0 = (\<Sum>j \<in> set (right_nodes g0). capacity g j i)" by simp
qed

lemma right_balance:
  assumes bn: "bipartite_network g0" and fi: "flow_inv g0 k g"
    and j: "j \<in> set (right_nodes g0)"
  shows "capacity g j (nodes g0 + 1) + (\<Sum>i \<in> set (left_nodes g0). capacity g j i) = 1"
proof -
  from bn have wf: "wf_Graph g0" unfolding bipartite_network_def by simp
  note rj = right_in_range [OF wf j]
  have rs: "rowsum g j = rowsum g0 j" using fi rj(2,3) unfolding flow_inv_def by blast
  have c0: "capacity g0 j (nodes g0 + 1) = 1"
    using bn j unfolding bipartite_network_def by blast
  have z: "capacity g0 j i = 0" if i: "i \<in> set (left_nodes g0)" for i
    by (rule network_zero [OF bn rj(1) left_in_range(1) [OF wf i]])
       (use rj(4,5,6) left_in_range(4,5,6) [OF wf i] in \<open>auto simp: wired_def\<close>)
  have "(\<Sum>i \<in> set (left_nodes g0). capacity g0 j i) = 0"
    by (rule sum.neutral) (use z in blast)
  with rs rowsum_right [OF bn fi j] rowsum_right [OF bn flow_inv_init [OF bn] j] c0
  show ?thesis by simp
qed

section \<open>The matching held by the residual matrix\<close>

lemma left_matched:
  assumes bn: "bipartite_network g0" and fi: "flow_inv g0 k g"
    and i: "i \<in> set (left_nodes g0)"
  shows "capacity g 0 i = 0 \<Longrightarrow> \<exists>j \<in> set (right_nodes g0). capacity g j i = 1"
    and "j \<in> set (right_nodes g0) \<Longrightarrow> capacity g j i = 1 \<Longrightarrow> capacity g 0 i = 0"
    and "j \<in> set (right_nodes g0) \<Longrightarrow> j' \<in> set (right_nodes g0) \<Longrightarrow>
         capacity g j i = 1 \<Longrightarrow> capacity g j' i = 1 \<Longrightarrow> j = j'"
proof -
  from bn have wf: "wf_Graph g0" unfolding bipartite_network_def by simp
  note li = left_in_range [OF wf i]
  note r0 = ends_in_range(1) [OF wf]
  note lb = left_balance [OF bn fi i]
  let ?f = "\<lambda>j. capacity g j i"
  have nn: "\<forall>x \<in> set (right_nodes g0). 0 \<le> ?f x"
    using flow_inv_facts(1) [OF bn fi right_in_range(1) [OF wf] li(1)] by blast
  have le: "sum ?f (set (right_nodes g0)) \<le> 1"
    using lb flow_inv_facts(1) [OF bn fi r0 li(1)] by linarith
  show "\<exists>j \<in> set (right_nodes g0). capacity g j i = 1" if "capacity g 0 i = 0"
  proof -
    from that lb have "sum ?f (set (right_nodes g0)) \<noteq> 0" by simp
    from sum_pos_member [OF this] obtain j where
      j: "j \<in> set (right_nodes g0)" "capacity g j i \<noteq> 0"
      by blast
    from flow_inv_facts(1,2) [OF bn fi right_in_range(1) [OF wf j(1)] li(1)] j(2)
    have "capacity g j i = 1" by linarith
    with j(1) show ?thesis by blast
  qed
  show "capacity g 0 i = 0" if "j \<in> set (right_nodes g0)" "capacity g j i = 1" for j
  proof -
    have "?f j \<le> sum ?f (set (right_nodes g0))"
      by (rule member_le_sum) (use that(1) nn in auto)
    with that(2) lb flow_inv_facts(1) [OF bn fi r0 li(1)]
      flow_inv_facts(1) [OF bn fi li(1) r0]
    show ?thesis by linarith
  qed
  show "j = j'" if "j \<in> set (right_nodes g0)" "j' \<in> set (right_nodes g0)"
    "capacity g j i = 1" "capacity g j' i = 1" for j j'
  proof (rule ccontr)
    assume "j \<noteq> j'"
    from sum_two_le [OF _ that(1,2) this nn] that(3,4) le show False by simp
  qed
qed

lemma right_matched:
  assumes bn: "bipartite_network g0" and fi: "flow_inv g0 k g"
    and j: "j \<in> set (right_nodes g0)"
  shows "capacity g j (nodes g0 + 1) = 0 \<Longrightarrow> \<exists>i \<in> set (left_nodes g0). capacity g j i = 1"
    and "i \<in> set (left_nodes g0) \<Longrightarrow> i' \<in> set (left_nodes g0) \<Longrightarrow>
         capacity g j i = 1 \<Longrightarrow> capacity g j i' = 1 \<Longrightarrow> i = i'"
proof -
  from bn have wf: "wf_Graph g0" unfolding bipartite_network_def by simp
  note rj = right_in_range [OF wf j]
  note rt = ends_in_range(2) [OF wf]
  note rb = right_balance [OF bn fi j]
  let ?f = "\<lambda>i. capacity g j i"
  have nn: "\<forall>x \<in> set (left_nodes g0). 0 \<le> ?f x"
    using flow_inv_facts(1) [OF bn fi rj(1) left_in_range(1) [OF wf]] by blast
  have le: "sum ?f (set (left_nodes g0)) \<le> 1"
    using rb flow_inv_facts(1) [OF bn fi rj(1) rt] by linarith
  show "\<exists>i \<in> set (left_nodes g0). capacity g j i = 1" if "capacity g j (nodes g0 + 1) = 0"
  proof -
    from that rb have "sum ?f (set (left_nodes g0)) \<noteq> 0" by simp
    from sum_pos_member [OF this] obtain i where
      i: "i \<in> set (left_nodes g0)" "capacity g j i \<noteq> 0"
      by blast
    from flow_inv_facts(1,2) [OF bn fi rj(1) left_in_range(1) [OF wf i(1)]] i(2)
    have "capacity g j i = 1" by linarith
    with i(1) show ?thesis by blast
  qed
  show "i = i'" if "i \<in> set (left_nodes g0)" "i' \<in> set (left_nodes g0)"
    "capacity g j i = 1" "capacity g j i' = 1" for i i'
  proof (rule ccontr)
    assume "i \<noteq> i'"
    from sum_two_le [OF _ that(1,2) this nn] that(3,4) le show False by simp
  qed
qed

lemma matched_is_edge:
  assumes bn: "bipartite_network g0" and fi: "flow_inv g0 k g"
    and i: "i \<in> set (left_nodes g0)" and j: "j \<in> set (right_nodes g0)"
  shows "capacity g j i = 1 \<Longrightarrow> capacity g0 i j = 1"
    and "capacity g0 i j = 1 \<Longrightarrow> capacity g i j + capacity g j i = 1"
proof -
  from bn have wf: "wf_Graph g0" unfolding bipartite_network_def by simp
  note li = left_in_range [OF wf i] and rj = right_in_range [OF wf j]
  have w: "wired g0 i j" using i j unfolding wired_def by simp
  note s = flow_inv_facts(5) [OF bn fi li(1) rj(1) w]
  show "capacity g0 i j = 1" if "capacity g j i = 1"
    using that s flow_inv_facts(1) [OF bn fi li(1) rj(1)] network_unit [OF bn li(1) rj(1)]
    by linarith
  show "capacity g i j + capacity g j i = 1" if "capacity g0 i j = 1"
    using that s by simp
qed

lemma set_matchedPairs_sides:
  assumes "nodes g = nodes g0"
  shows "set (matchedPairs g) =
     {(i, j). i \<in> set (left_nodes g0) \<and> j \<in> set (right_nodes g0) \<and> capacity g j i = 1}"
  unfolding set_matchedPairs left_nodes_def right_nodes_def assms by auto

lemma residual_matching:
  assumes bn: "bipartite_network g0" and fi: "flow_inv g0 k g"
  shows "matching g0 (set (matchedPairs g))"
proof -
  from fi have nd: "nodes g = nodes g0" unfolding flow_inv_def by simp
  note M = set_matchedPairs_sides [OF nd]
  have sub: "set (matchedPairs g) \<subseteq> bipartite_edges g0"
    unfolding M bipartite_edges_def using matched_is_edge(1) [OF bn fi] by auto
  have l: "e = e'" if m: "e \<in> set (matchedPairs g)" "e' \<in> set (matchedPairs g)" "fst e = fst e'"
    for e e'
  proof -
    obtain i j where e: "e = (i, j)" by (cases e)
    obtain j' where e': "e' = (i, j')" using m(3) e by (cases e') simp
    from m(1,2) have "i \<in> set (left_nodes g0)" "j \<in> set (right_nodes g0)"
      "j' \<in> set (right_nodes g0)" "capacity g j i = 1" "capacity g j' i = 1"
      unfolding M e e' by simp_all
    from left_matched(3) [OF bn fi this] show ?thesis unfolding e e' by simp
  qed
  have r: "e = e'" if m: "e \<in> set (matchedPairs g)" "e' \<in> set (matchedPairs g)" "snd e = snd e'"
    for e e'
  proof -
    obtain i j where e: "e = (i, j)" by (cases e)
    obtain i' where e': "e' = (i', j)" using m(3) e by (cases e') simp
    from m(1,2) have "j \<in> set (right_nodes g0)" "i \<in> set (left_nodes g0)"
      "i' \<in> set (left_nodes g0)" "capacity g j i = 1" "capacity g j i' = 1"
      unfolding M e e' by simp_all
    from right_matched(2) [OF bn fi this] show ?thesis unfolding e e' by simp
  qed
  show ?thesis unfolding matching_def using sub l r by blast
qed

lemma residual_card:
  assumes bn: "bipartite_network g0" and fi: "flow_inv g0 k g"
  shows "card (set (matchedPairs g)) = k"
proof -
  from fi have nd: "nodes g = nodes g0" unfolding flow_inv_def by simp
  note M = set_matchedPairs_sides [OF nd]
  from residual_matching [OF bn fi] have "inj_on fst (set (matchedPairs g))"
    unfolding matching_def inj_on_def by blast
  then have "card (fst ` set (matchedPairs g)) = card (set (matchedPairs g))"
    by (rule card_image)
  moreover have "fst ` set (matchedPairs g) = {i \<in> set (left_nodes g0). capacity g 0 i = 0}"
  proof (rule set_eqI, rule iffI)
    fix i assume "i \<in> fst ` set (matchedPairs g)"
    then obtain j where "i \<in> set (left_nodes g0)" "j \<in> set (right_nodes g0)"
      "capacity g j i = 1"
      unfolding M by auto
    then show "i \<in> {i \<in> set (left_nodes g0). capacity g 0 i = 0}"
      using left_matched(2) [OF bn fi] by simp
  next
    fix i assume "i \<in> {i \<in> set (left_nodes g0). capacity g 0 i = 0}"
    then have i: "i \<in> set (left_nodes g0)" "capacity g 0 i = 0" by simp_all
    from left_matched(1) [OF bn fi i] obtain j where
      "j \<in> set (right_nodes g0)" "capacity g j i = 1"
      by blast
    with i(1) have "(i, j) \<in> set (matchedPairs g)" unfolding M by simp
    then show "i \<in> fst ` set (matchedPairs g)" by force
  qed
  ultimately show ?thesis using fi unfolding flow_inv_def by simp
qed

section \<open>No augmenting path: the matching is maximum\<close>

lemma reachable_step:
  "reachable g s u \<Longrightarrow> in_range g u \<Longrightarrow> in_range g v \<Longrightarrow> capacity g u v > 0 \<Longrightarrow>
   reachable g s v"
  unfolding reachable_def edge_rel_def by (erule rtrancl_into_rtrancl) simp

lemma reachable_pred:
  assumes "reachable g s v" "v \<noteq> s"
  shows "\<exists>u. reachable g s u \<and> in_range g u \<and> in_range g v \<and> capacity g u v > 0"
  using assms unfolding reachable_def edge_rel_def
  by (cases rule: rtranclE) auto

lemma finite_matching:
  assumes "matching g M"
  shows "finite M"
proof -
  have "M \<subseteq> set (left_nodes g) \<times> set (right_nodes g)"
    using assms unfolding matching_def bipartite_edges_def by auto
  then show ?thesis by (rule finite_subset) simp
qed

lemma edge_closure:
  assumes bn: "bipartite_network g0" and fi: "flow_inv g0 k g"
    and e: "(i, j) \<in> bipartite_edges g0" and ri: "reachable g 0 i"
  shows "reachable g 0 j"
proof -
  from bn have wf: "wf_Graph g0" unfolding bipartite_network_def by simp
  from fi have tn: "totalNodes g = totalNodes g0" unfolding flow_inv_def by simp
  have ir: "in_range g = in_range g0" by (rule in_range_cong [OF tn])
  from e have i: "i \<in> set (left_nodes g0)" and j: "j \<in> set (right_nodes g0)"
    and c: "capacity g0 i j = 1"
    unfolding bipartite_edges_def by simp_all
  note li = left_in_range [OF wf i] and rj = right_in_range [OF wf j]
  note s = matched_is_edge(2) [OF bn fi i j c]
  show ?thesis
  proof (cases "capacity g i j > 0")
    case True
    show ?thesis by (rule reachable_step [OF ri _ _ True]) (simp_all add: ir li rj)
  next
    case False
    with s flow_inv_facts(1) [OF bn fi li(1) rj(1)] have m: "capacity g j i = 1" by linarith
    from reachable_pred [OF ri li(4)] obtain u where
      u: "reachable g 0 u" "in_range g u" "capacity g u i > 0"
      by blast
    have ru: "in_range g0 u" using u(2) by (simp add: ir)
    have "wired g0 u i \<or> wired g0 i u"
      using flow_inv_facts(4) [OF bn fi ru li(1)] u(3) by auto
    then have "u = 0 \<or> u \<in> set (right_nodes g0)"
      using li(4,5,6) unfolding wired_def by auto
    then show ?thesis
    proof
      assume "u = 0"
      with u(3) left_matched(2) [OF bn fi i j m] show ?thesis by simp
    next
      assume ur: "u \<in> set (right_nodes g0)"
      have "capacity g u i = 1"
        using u(3) flow_inv_facts(2) [OF bn fi ru li(1)] by linarith
      from left_matched(3) [OF bn fi i ur j this m] u(1) show ?thesis by simp
    qed
  qed
qed

lemma residual_maximum:
  assumes bn: "bipartite_network g0" and fi: "flow_inv g0 k g"
    and nr: "\<not> reachable g 0 (nodes g0 + 1)"
    and m: "matching g0 M'"
  shows "card M' \<le> k"
proof -
  from bn have wf: "wf_Graph g0" unfolding bipartite_network_def by simp
  from fi have tn: "totalNodes g = totalNodes g0" and nd: "nodes g = nodes g0"
    unfolding flow_inv_def by simp_all
  have ir: "in_range g = in_range g0" by (rule in_range_cong [OF tn])
  note r0 = ends_in_range(1) [OF wf] and rt = ends_in_range(2) [OF wf]
  have s0: "reachable g 0 0" unfolding reachable_def by simp
  let ?M = "set (matchedPairs g)"
  note M = set_matchedPairs_sides [OF nd]
  note rm = residual_matching [OF bn fi]
  let ?Rch = "reachable g 0"
  let ?LU = "{i \<in> set (left_nodes g0). \<not> ?Rch i}"
  let ?RR = "{j \<in> set (right_nodes g0). ?Rch j}"
  let ?A = "{e \<in> M'. \<not> ?Rch (fst e)}"
  let ?B = "{e \<in> M'. ?Rch (fst e)}"
  let ?MA = "{e \<in> ?M. \<not> ?Rch (fst e)}"
  let ?MB = "{e \<in> ?M. ?Rch (snd e)}"
  have fin: "finite M'" by (rule finite_matching [OF m])
  have sub: "M' \<subseteq> bipartite_edges g0" using m unfolding matching_def by simp

  have "card M' = card (?A \<union> ?B)" by (rule arg_cong [where f = card]) blast
  also have "\<dots> = card ?A + card ?B"
    by (rule card_Un_disjoint) (use fin in auto)
  finally have c1: "card M' = card ?A + card ?B" .

  have "inj_on fst ?A" using m unfolding matching_def inj_on_def by blast
  then have "card ?A = card (fst ` ?A)" by (rule card_image [symmetric])
  also have "\<dots> \<le> card ?LU"
    by (rule card_mono) (use sub in \<open>auto simp: bipartite_edges_def\<close>)
  finally have c2: "card ?A \<le> card ?LU" .

  have "inj_on snd ?B" using m unfolding matching_def inj_on_def by blast
  then have "card ?B = card (snd ` ?B)" by (rule card_image [symmetric])
  also have "\<dots> \<le> card ?RR"
  proof (rule card_mono)
    show "finite ?RR" by simp
    show "snd ` ?B \<subseteq> ?RR"
    proof
      fix j assume "j \<in> snd ` ?B"
      then obtain i where e: "(i, j) \<in> M'" "?Rch i" by auto
      then have e0: "(i, j) \<in> bipartite_edges g0" using sub by blast
      from edge_closure [OF bn fi e0 e(2)] e0 show "j \<in> ?RR"
        unfolding bipartite_edges_def by simp
    qed
  qed
  finally have c3: "card ?B \<le> card ?RR" .

  have "?LU \<subseteq> fst ` ?MA"
  proof
    fix i assume "i \<in> ?LU"
    then have i: "i \<in> set (left_nodes g0)" "\<not> ?Rch i" by simp_all
    note li = left_in_range [OF wf i(1)]
    have "\<not> capacity g 0 i > 0"
      using reachable_step [OF s0 _ _, of i] i(2) r0 li(1) by (auto simp: ir)
    with flow_inv_facts(1) [OF bn fi r0 li(1)] have "capacity g 0 i = 0" by linarith
    from left_matched(1) [OF bn fi i(1) this] obtain j where
      "j \<in> set (right_nodes g0)" "capacity g j i = 1"
      by blast
    with i have "(i, j) \<in> ?MA" unfolding M by simp
    then show "i \<in> fst ` ?MA" by force
  qed
  then have "card ?LU \<le> card (fst ` ?MA)" by (rule card_mono [rotated]) simp
  also have "\<dots> \<le> card ?MA" by (rule card_image_le) simp
  finally have c4: "card ?LU \<le> card ?MA" .

  have "?RR \<subseteq> snd ` ?MB"
  proof
    fix j assume "j \<in> ?RR"
    then have j: "j \<in> set (right_nodes g0)" "?Rch j" by simp_all
    note rj = right_in_range [OF wf j(1)]
    have "\<not> capacity g j (nodes g0 + 1) > 0"
      using reachable_step [OF j(2) _ _, of "nodes g0 + 1"] nr rt rj(1) by (auto simp: ir)
    with flow_inv_facts(1) [OF bn fi rj(1) rt] have "capacity g j (nodes g0 + 1) = 0"
      by linarith
    from right_matched(1) [OF bn fi j(1) this] obtain i where
      "i \<in> set (left_nodes g0)" "capacity g j i = 1"
      by blast
    with j have "(i, j) \<in> ?MB" unfolding M by simp
    then show "j \<in> snd ` ?MB" by force
  qed
  then have "card ?RR \<le> card (snd ` ?MB)" by (rule card_mono [rotated]) simp
  also have "\<dots> \<le> card ?MB" by (rule card_image_le) simp
  finally have c5: "card ?RR \<le> card ?MB" .

  have disj: "?MA \<inter> ?MB = {}"
  proof (rule ccontr)
    assume "?MA \<inter> ?MB \<noteq> {}"
    then obtain i j where e: "(i, j) \<in> ?M" "\<not> ?Rch i" "?Rch j" by auto
    then have ij: "i \<in> set (left_nodes g0)" "j \<in> set (right_nodes g0)" "capacity g j i = 1"
      unfolding M by simp_all
    have "?Rch i"
      by (rule reachable_step [OF e(3)])
         (simp_all add: ir ij(3) left_in_range(1) [OF wf ij(1)] right_in_range(1) [OF wf ij(2)])
    with e(2) show False by simp
  qed
  have "card ?MA + card ?MB = card (?MA \<union> ?MB)"
    by (rule card_Un_disjoint [symmetric]) (use disj in simp_all)
  also have "\<dots> \<le> card ?M" by (rule card_mono) auto
  finally have c6: "card ?MA + card ?MB \<le> card ?M" .

  from c1 c2 c3 c4 c5 c6 residual_card [OF bn fi] show ?thesis by linarith
qed

section \<open>The network the program builds\<close>

lemma createEdge_capacity:
  assumes wf: "wf_Graph g" and r: "in_range g a" "in_range g b" "in_range g i" "in_range g j"
  shows "capacity (createEdge g a b c) i j = (if (i, j) = (a, b) then c else capacity g i j)"
proof -
  have sq: "square (totalNodes g) (adjacencyMatrix g)" by (rule wf_Graph_square [OF wf])
  have idx: "nat a < nat (totalNodes g)" "nat b < nat (totalNodes g)"
    "nat i < nat (totalNodes g)" "nat j < nat (totalNodes g)"
    using r by (auto simp: in_range_def)
  have eq: "nat i = nat a \<and> nat j = nat b \<longleftrightarrow> (i, j) = (a, b)"
    using r by (auto simp: in_range_def)
  show ?thesis
    unfolding createEdge_def using nth_matrix_update [OF sq idx, of c] eq by simp
qed

lemma createEdge_nodes:
  "nodes (createEdge g a b c) = nodes g" "totalNodes (createEdge g a b c) = totalNodes g"
  by (simp_all add: createEdge_def)

lemma readEdges_snoc:
  "readEdges g (es @ [e]) = createEdge (readEdges g es) (fst e) (snd e) 1"
  by (simp add: readEdges_def case_prod_beta)

lemma readEdges_effect:
  assumes wf: "wf_Graph g"
  shows "(\<forall>e \<in> set es. in_range g (fst e) \<and> in_range g (snd e)) \<Longrightarrow>
         wf_Graph (readEdges g es) \<and> nodes (readEdges g es) = nodes g \<and>
         totalNodes (readEdges g es) = totalNodes g \<and>
         (\<forall>i j. in_range g i \<and> in_range g j \<longrightarrow>
            capacity (readEdges g es) i j = (if (i, j) \<in> set es then 1 else capacity g i j))"
proof (induction es rule: rev_induct)
  case Nil
  then show ?case using wf by (simp add: readEdges_def)
next
  case (snoc e es)
  let ?h = "readEdges g es"
  from snoc have ih: "wf_Graph ?h" "nodes ?h = nodes g" "totalNodes ?h = totalNodes g"
    "\<forall>i j. in_range g i \<and> in_range g j \<longrightarrow>
       capacity ?h i j = (if (i, j) \<in> set es then 1 else capacity g i j)"
    and e: "in_range g (fst e)" "in_range g (snd e)"
    by simp_all
  have ir: "in_range ?h = in_range g" by (rule in_range_cong [OF ih(3)])
  have wf': "wf_Graph (readEdges g (es @ [e]))"
    unfolding readEdges_snoc
    by (rule createEdge_wf [OF ih(1)]) (simp_all add: INT_MIN_def INT_MAX_def)
  have cap: "capacity (readEdges g (es @ [e])) i j =
               (if (i, j) \<in> set (es @ [e]) then 1 else capacity g i j)"
    if r: "in_range g i \<and> in_range g j" for i j
  proof -
    have "capacity (readEdges g (es @ [e])) i j =
            (if (i, j) = (fst e, snd e) then 1 else capacity ?h i j)"
      unfolding readEdges_snoc
      by (rule createEdge_capacity [OF ih(1)]) (simp_all add: ir e r)
    also have "\<dots> = (if (i, j) = e then 1 else if (i, j) \<in> set es then 1 else capacity g i j)"
      using ih(4) r by simp
    also have "\<dots> = (if (i, j) \<in> set (es @ [e]) then 1 else capacity g i j)"
      by auto
    finally show ?thesis .
  qed
  show ?case
    using wf' cap ih(2,3) by (simp add: readEdges_snoc createEdge_nodes)
qed

lemma createSourceNode_readEdges:
  "createSourceNode g s = readEdges g (map (Pair s) (left_nodes g))"
  by (simp add: createSourceNode_def readEdges_def left_nodes_def foldl_map)

lemma createSinkNode_readEdges:
  "createSinkNode g t = readEdges g (map (\<lambda>i. (i, t)) (right_nodes g))"
  by (simp add: createSinkNode_def readEdges_def right_nodes_def foldl_map)

lemma Graph_new_capacity:
  assumes "0 \<le> n" "in_range (Graph_new n) i" "in_range (Graph_new n) j"
  shows "capacity (Graph_new n) i j = 0"
  using assms by (simp add: Graph_new_def initializeAdjacencyMatrix_def in_range_def)

text \<open>
  For every number of nodes and every list of edges from a left node to a right node, the
  graph the program builds is a fully wired unit-capacity bipartite network, and its
  left-right edges are the edges of the input.
\<close>

lemma wired_network_bipartite:
  assumes n: "0 \<le> n"
    and es: "\<forall>e \<in> set es. 1 \<le> fst e \<and> fst e \<le> n div 2 \<and> n div 2 + 1 \<le> snd e \<and> snd e \<le> n"
  shows "bipartite_network (wired_network n es)"
    and "bipartite_edges (wired_network n es) = set es"
proof -
  let ?g0 = "Graph_new n"
  let ?g1 = "readEdges ?g0 es"
  let ?g2 = "createSourceNode ?g1 0"
  let ?g3 = "createSinkNode ?g2 (n + 1)"
  have wf0: "wf_Graph ?g0" by (rule Graph_new_wf [OF n])
  have n0: "nodes ?g0 = n" "totalNodes ?g0 = n + 2" by (simp_all add: Graph_new_def)
  have ir0: "in_range ?g0 a \<longleftrightarrow> 0 \<le> a \<and> a \<le> n + 1" for a
    by (auto simp: in_range_def n0)
  have h: "0 \<le> n div 2" "n div 2 \<le> n" using n by simp_all
  have L: "set (left_nodes g) = {1..n div 2}" if "nodes g = n" for g
    using that n by (simp add: left_nodes_def sdiv_half)
  have R: "set (right_nodes g) = {n div 2 + 1..n}" if "nodes g = n" for g
    using that n by (simp add: right_nodes_def sdiv_half)
  have "\<forall>e \<in> set es. in_range ?g0 (fst e) \<and> in_range ?g0 (snd e)"
    using es h by (auto simp: ir0)
  from readEdges_effect [OF wf0 this] have g1: "wf_Graph ?g1" "nodes ?g1 = n"
    "totalNodes ?g1 = totalNodes ?g0"
    "\<forall>i j. in_range ?g0 i \<and> in_range ?g0 j \<longrightarrow>
       capacity ?g1 i j = (if (i, j) \<in> set es then 1 else 0)"
    using Graph_new_capacity [OF n] by (simp_all add: n0)
  have ir1: "in_range ?g1 = in_range ?g0" by (rule in_range_cong [OF g1(3)])
  have "\<forall>e \<in> set (map (Pair 0) (left_nodes ?g1)). in_range ?g1 (fst e) \<and> in_range ?g1 (snd e)"
    using h by (auto simp: ir1 ir0 L [OF g1(2)])
  from readEdges_effect [OF g1(1) this] have g2: "wf_Graph ?g2" "nodes ?g2 = n"
    "totalNodes ?g2 = totalNodes ?g0"
    "\<forall>i j. in_range ?g0 i \<and> in_range ?g0 j \<longrightarrow>
       capacity ?g2 i j = (if i = 0 \<and> j \<in> {1..n div 2} then 1 else capacity ?g1 i j)"
    unfolding createSourceNode_readEdges
    using g1(2,3) by (auto simp: ir1 L [OF g1(2)] image_iff)
  have ir2: "in_range ?g2 = in_range ?g0" by (rule in_range_cong [OF g2(3)])
  have "\<forall>e \<in> set (map (\<lambda>i. (i, n + 1)) (right_nodes ?g2)).
          in_range ?g2 (fst e) \<and> in_range ?g2 (snd e)"
    using h by (auto simp: ir2 ir0 R [OF g2(2)])
  from readEdges_effect [OF g2(1) this] have g3: "wf_Graph ?g3" "nodes ?g3 = n"
    "\<forall>i j. in_range ?g0 i \<and> in_range ?g0 j \<longrightarrow>
       capacity ?g3 i j = (if i \<in> {n div 2 + 1..n} \<and> j = n + 1 then 1 else capacity ?g2 i j)"
    unfolding createSinkNode_readEdges
    using g2(2,3) by (auto simp: ir2 R [OF g2(2)] image_iff)
  have w: "wired_network n es = ?g3"
    by (simp add: wired_network_def connectSourceAndSinkNodes_def)
  have cap: "capacity ?g3 i j =
      (if i \<in> {n div 2 + 1..n} \<and> j = n + 1 then 1
       else if i = 0 \<and> j \<in> {1..n div 2} then 1
       else if (i, j) \<in> set es then 1 else 0)"
    if "0 \<le> i" "i \<le> n + 1" "0 \<le> j" "j \<le> n + 1" for i j
  proof -
    have r: "in_range ?g0 i \<and> in_range ?g0 j" using that by (simp add: ir0)
    note c1 = g1(4) [rule_format, OF r] and c2 = g2(4) [rule_format, OF r]
      and c3 = g3(3) [rule_format, OF r]
    show ?thesis unfolding c3 c2 c1 ..
  qed
  have esd: "(i, j) \<in> set es \<Longrightarrow> i \<in> {1..n div 2} \<and> j \<in> {n div 2 + 1..n}" for i j
    using es by force
  have b1: "\<forall>i \<in> set (left_nodes ?g3). capacity ?g3 0 i = 1"
  proof
    fix i assume "i \<in> set (left_nodes ?g3)"
    then have i: "1 \<le> i" "i \<le> n div 2" unfolding L [OF g3(2)] by simp_all
    from cap [of 0 i] i h n show "capacity ?g3 0 i = 1" by simp
  qed
  have b2: "\<forall>j \<in> set (right_nodes ?g3). capacity ?g3 j (nodes ?g3 + 1) = 1"
  proof
    fix j assume "j \<in> set (right_nodes ?g3)"
    then have j: "n div 2 + 1 \<le> j" "j \<le> n" unfolding R [OF g3(2)] by simp_all
    from cap [of j "n + 1"] j h n show "capacity ?g3 j (nodes ?g3 + 1) = 1"
      unfolding g3(2) by simp
  qed
  have b3: "\<forall>i \<in> set (left_nodes ?g3). \<forall>j \<in> set (right_nodes ?g3).
              capacity ?g3 i j = 0 \<or> capacity ?g3 i j = 1"
  proof (intro ballI)
    fix i j assume "i \<in> set (left_nodes ?g3)" "j \<in> set (right_nodes ?g3)"
    then have ij: "1 \<le> i" "i \<le> n div 2" "n div 2 + 1 \<le> j" "j \<le> n"
      unfolding L [OF g3(2)] R [OF g3(2)] by simp_all
    from cap [of i j] ij h n show "capacity ?g3 i j = 0 \<or> capacity ?g3 i j = 1" by simp
  qed
  have b4: "\<forall>a \<in> set [0..nodes ?g3 + 1]. \<forall>b \<in> set [0..nodes ?g3 + 1].
              \<not> wired ?g3 a b \<longrightarrow> capacity ?g3 a b = 0"
  proof (intro ballI impI)
    fix a b assume ab: "a \<in> set [0..nodes ?g3 + 1]" "b \<in> set [0..nodes ?g3 + 1]"
      and nw: "\<not> wired ?g3 a b"
    from ab have r: "0 \<le> a" "a \<le> n + 1" "0 \<le> b" "b \<le> n + 1" unfolding g3(2) by simp_all
    from nw have c: "\<not> (a = 0 \<and> b \<in> {1..n div 2})" "\<not> (a \<in> {n div 2 + 1..n} \<and> b = n + 1)"
      "\<not> (a \<in> {1..n div 2} \<and> b \<in> {n div 2 + 1..n})"
      unfolding wired_def L [OF g3(2)] R [OF g3(2)] g3(2) by blast+
    from c(3) esd [of a b] have "(a, b) \<notin> set es" by blast
    with cap [OF r] c(1,2) show "capacity ?g3 a b = 0" by simp
  qed
  show "bipartite_network (wired_network n es)"
    unfolding w bipartite_network_def using g3(1) b1 b2 b3 b4 by blast
  show "bipartite_edges (wired_network n es) = set es"
  proof -
    have "(i, j) \<in> bipartite_edges ?g3 \<longleftrightarrow> (i, j) \<in> set es" for i j
    proof
      assume "(i, j) \<in> bipartite_edges ?g3"
      then have ij: "i \<in> {1..n div 2}" "j \<in> {n div 2 + 1..n}" "capacity ?g3 i j = 1"
        unfolding bipartite_edges_def L [OF g3(2)] R [OF g3(2)] by simp_all
      then have "capacity ?g3 i j = (if (i, j) \<in> set es then 1 else 0)"
        using cap [of i j] h n by simp
      with ij(3) show "(i, j) \<in> set es" by (simp split: if_splits)
    next
      assume e: "(i, j) \<in> set es"
      from esd [OF e] have ij: "i \<in> {1..n div 2}" "j \<in> {n div 2 + 1..n}" by simp_all
      then have "capacity ?g3 i j = 1" using cap [of i j] h n e by simp
      with ij show "(i, j) \<in> bipartite_edges ?g3"
        unfolding bipartite_edges_def L [OF g3(2)] R [OF g3(2)] by simp
    qed
    then show ?thesis unfolding w by auto
  qed
qed

lemma example_graph_wired: "example_graph = wired_network 4 [(1, 3), (2, 3), (2, 4)]"
  by (simp add: example_graph_def wired_network_def readEdges_def)

section \<open>Maximum matching\<close>

lemma matching_card_left:
  assumes "matching g M"
  shows "card M \<le> length (left_nodes g)"
proof -
  have "inj_on fst M" using assms unfolding matching_def inj_on_def by blast
  then have "card M = card (fst ` M)" by (rule card_image [symmetric])
  also have "\<dots> \<le> card (set (left_nodes g))"
    by (rule card_mono) (use assms in \<open>auto simp: matching_def bipartite_edges_def\<close>)
  also have "\<dots> \<le> length (left_nodes g)" by (rule card_length)
  finally show ?thesis .
qed

lemma perfect_matching:
  assumes wf: "wf_Graph g" and n: "nodes g = 2 * n"
    and full: "\<forall>i \<in> set (left_nodes g). \<forall>j \<in> set (right_nodes g). capacity g i j = 1"
  shows "matching g ((\<lambda>i. (i, i + n)) ` {1..n})" "card ((\<lambda>i. (i, i + n)) ` {1..n}) = nat n"
    "length (left_nodes g) = nat n"
proof -
  have h: "nodes g div 2 = n" using n by simp
  note sd = sides(1,2) [OF wf, unfolded h]
  have "(\<lambda>i. (i, i + n)) ` {1..n} \<subseteq> bipartite_edges g"
    using full unfolding bipartite_edges_def sd n by auto
  then show "matching g ((\<lambda>i. (i, i + n)) ` {1..n})"
    unfolding matching_def by auto
  have "inj_on (\<lambda>i. (i, i + n)) {1..n}" unfolding inj_on_def by simp
  then have "card ((\<lambda>i. (i, i + n)) ` {1..n}) = card {1..n}" by (rule card_image)
  then show "card ((\<lambda>i. (i, i + n)) ` {1..n}) = nat n" by simp
  from wf have "0 \<le> nodes g" unfolding wf_Graph_def by simp
  then show "length (left_nodes g) = nat n"
    unfolding left_nodes_def using h by (simp add: sdiv_half)
qed

text \<open>
  Claim C1.  On every fully wired unit-capacity bipartite network (the source 0 has an edge
  of capacity 1 to every left node, every right node has an edge of capacity 1 to the sink
  \<open>nodes + 1\<close>, between a left and a right node there is an edge of capacity 1 or none, and
  the matrix holds nothing else), \<open>calculateMaxFlow(0, nodes + 1)\<close> returns, and the total
  number of augmenting paths it pushed, one unit each, is the size of a maximum matching of the
  bipartite graph: the pairs \<open>printResults\<close> reads from the final matrix are a matching of the
  input edges, their number is the number of units pushed and is the count \<open>printResults\<close>
  writes, and no matching of the input edges is larger.  In particular two nodes with the
  edge between them give 1 match, as does every network with a single left-right edge; no
  left-right edge gives 0 matches; and the complete bipartite graph on \<open>n\<close> left and \<open>n\<close>
  right nodes gives \<open>n\<close> matches.
\<close>

theorem calculateMaxFlow_maximum_matching:
  assumes "bipartite_network (graph ff)"
  shows "\<exists>phases ff'.
           calculateMaxFlow ff 0 (nodes (graph ff) + 1) = Some (Inr phases, ff') \<and>
           matching (graph ff) (set (matchedPairs (graph ff'))) \<and>
           card (set (matchedPairs (graph ff'))) = sum_list phases \<and>
           printResults_pairs (graph ff') = (matchedPairs (graph ff'), int (sum_list phases)) \<and>
           (\<forall>M. matching (graph ff) M \<longrightarrow> card M \<le> sum_list phases) \<and>
           (nodes (graph ff) = 2 \<and> capacity (graph ff) 1 2 = 1 \<longrightarrow> sum_list phases = 1) \<and>
           (\<forall>e. bipartite_edges (graph ff) = {e} \<longrightarrow> sum_list phases = 1) \<and>
           (bipartite_edges (graph ff) = {} \<longrightarrow> sum_list phases = 0) \<and>
           (\<forall>n. nodes (graph ff) = 2 * n \<and>
                (\<forall>i \<in> set (left_nodes (graph ff)). \<forall>j \<in> set (right_nodes (graph ff)).
                    capacity (graph ff) i j = 1) \<longrightarrow>
                sum_list phases = nat n)"
proof -
  let ?g = "graph ff"
  let ?t = "nodes ?g + 1"
  from assms have wf: "wf_Graph ?g" unfolding bipartite_network_def by simp
  note r0 = ends_in_range(1) [OF wf] and rt = ends_in_range(2) [OF wf]
  have ne: "0 \<noteq> ?t" using wf unfolding wf_Graph_def by simp
  from calculateMaxFlow_in_range [OF wf r0 rt] obtain ps ff' where
    p: "calculateMaxFlow ff 0 ?t = Some (Inr ps, ff')"
       "(augment_step 0 ?t ^^ sum_list ps) ?g (graph ff')"
       "\<not> (0 \<noteq> ?t \<and> reachable (graph ff') 0 ?t)"
    by blast
  let ?k = "sum_list ps"
  let ?M = "set (matchedPairs (graph ff'))"
  have fi: "flow_inv ?g ?k (graph ff')" by (rule flow_inv_steps [OF assms p(2)])
  have nr: "\<not> reachable (graph ff') 0 ?t" using p(3) ne by simp
  have m: "matching ?g ?M" by (rule residual_matching [OF assms fi])
  have c: "card ?M = ?k" by (rule residual_card [OF assms fi])
  have mx: "card M \<le> ?k" if "matching ?g M" for M
    by (rule residual_maximum [OF assms fi nr that])
  have "length (matchedPairs (graph ff')) = card ?M"
    by (rule distinct_card [symmetric]) (rule distinct_matchedPairs)
  then have pr: "printResults_pairs (graph ff') = (matchedPairs (graph ff'), int ?k)"
    unfolding printResults_pairs_eq c by simp
  have none: "?k = 0" if "bipartite_edges ?g = {}"
  proof -
    from m that have "?M = {}" unfolding matching_def by simp
    with c show ?thesis by simp
  qed
  have single: "?k = 1" if e: "bipartite_edges ?g = {e}" for e
  proof -
    have "matching ?g {e}" unfolding matching_def e by simp
    from mx [OF this] have "1 \<le> ?k" by simp
    moreover have "card ?M \<le> card {e}"
      by (rule card_mono) (use m e in \<open>simp_all add: matching_def\<close>)
    ultimately show ?thesis using c by simp
  qed
  have full: "?k = nat n"
    if n: "nodes ?g = 2 * n \<and>
           (\<forall>i \<in> set (left_nodes ?g). \<forall>j \<in> set (right_nodes ?g). capacity ?g i j = 1)"
    for n
  proof -
    note pm = perfect_matching [OF wf n [THEN conjunct1] n [THEN conjunct2]]
    from mx [OF pm(1)] pm(2) have "nat n \<le> ?k" by simp
    moreover from matching_card_left [OF m] c pm(3) have "?k \<le> nat n" by simp
    ultimately show ?thesis by simp
  qed
  have one: "?k = 1" if h: "nodes ?g = 2 \<and> capacity ?g 1 2 = 1"
  proof -
    from h have n: "nodes ?g = 2 * 1" by simp
    have "set (left_nodes ?g) = {1}" "set (right_nodes ?g) = {2}"
      using sides(1,2) [OF wf] h by auto
    with h have "\<forall>i \<in> set (left_nodes ?g). \<forall>j \<in> set (right_nodes ?g). capacity ?g i j = 1"
      by simp
    with n full [of 1] show ?thesis by simp
  qed
  from p(1) m c pr mx one single none full show ?thesis by blast
qed

lemma example_graph_network: "bipartite_network example_graph"
  unfolding example_graph_wired by (rule wired_network_bipartite) simp_all

theorem calculateMaxFlow_maximum_matching_witness:
  "bipartite_network (graph (FordFulkerson_new example_graph)) \<and>
   nodes (graph (FordFulkerson_new example_graph)) + 1 = 5 \<and>
   map_option fst (calculateMaxFlow (FordFulkerson_new example_graph) 0 5) = Some (Inr [2]) \<and>
   (\<exists>phases ff'.
      calculateMaxFlow (FordFulkerson_new example_graph) 0 5 = Some (Inr phases, ff') \<and>
      sum_list phases = 2 \<and>
      matching example_graph (set (matchedPairs (graph ff'))) \<and>
      card (set (matchedPairs (graph ff'))) = 2 \<and>
      printResults_pairs (graph ff') = (matchedPairs (graph ff'), 2))"
proof -
  let ?ff = "FordFulkerson_new example_graph"
  have g: "graph ?ff = example_graph" by (simp add: FordFulkerson_new_def)
  have bn: "bipartite_network (graph ?ff)" unfolding g by (rule example_graph_network)
  have t: "nodes (graph ?ff) + 1 = 5" unfolding g by (simp add: example_graph_eval)
  have e: "map_option fst (calculateMaxFlow ?ff 0 5) = Some (Inr [2])" by code_simp
  from calculateMaxFlow_maximum_matching [OF bn] obtain phases ff' where
    p: "calculateMaxFlow ?ff 0 (nodes (graph ?ff) + 1) = Some (Inr phases, ff')"
       "matching (graph ?ff) (set (matchedPairs (graph ff')))"
       "card (set (matchedPairs (graph ff'))) = sum_list phases"
       "printResults_pairs (graph ff') = (matchedPairs (graph ff'), int (sum_list phases))"
    by blast
  from p(1) e have "phases = [2]" unfolding t by simp
  then have s: "sum_list phases = 2" by simp
  from p s have "calculateMaxFlow ?ff 0 5 = Some (Inr phases, ff') \<and>
      sum_list phases = 2 \<and>
      matching example_graph (set (matchedPairs (graph ff'))) \<and>
      card (set (matchedPairs (graph ff'))) = 2 \<and>
      printResults_pairs (graph ff') = (matchedPairs (graph ff'), 2)"
    using t unfolding g by simp
  then have "\<exists>phases ff'.
      calculateMaxFlow ?ff 0 5 = Some (Inr phases, ff') \<and>
      sum_list phases = 2 \<and>
      matching example_graph (set (matchedPairs (graph ff'))) \<and>
      card (set (matchedPairs (graph ff'))) = 2 \<and>
      printResults_pairs (graph ff') = (matchedPairs (graph ff'), 2)"
    by blast
  with bn t e show ?thesis by blast
qed

end
